theory Spec2Isabelle
  imports Main
begin

section \<open>Python strings\<close>

text \<open>
  A Python \<open>str\<close> is modelled as a \<open>string\<close> (a list of \<open>char\<close>) holding the bytes of
  its UTF-8 encoding, so an ASCII literal stands for itself. A character of the text is a
  byte together with the continuation bytes (\<open>0x80\<close> to \<open>0xBF\<close>) after it; the methods
  that Python defines on characters (\<open>strip\<close>, \<open>split\<close>, slicing, \<open>len\<close>) work on the
  list of characters \<open>str_chars\<close>.
\<close>

definition dquote :: char where
  "dquote = CHR 0x22"

definition squote :: char where
  "squote = CHR 0x27"

definition newline :: char where
  "newline = CHR 0x0A"

definition is_cont :: "char \<Rightarrow> bool" where
  "is_cont b = ((128::nat) \<le> of_char b \<and> (of_char b :: nat) < 192)"

function str_chars :: "string \<Rightarrow> string list" where
  "str_chars [] = []"
| "str_chars (b # bs) = (b # takeWhile is_cont bs) # str_chars (dropWhile is_cont bs)"
  by pat_completeness auto
termination
  by (relation "measure length") (auto simp: less_Suc_eq_le length_dropWhile_le)

text \<open>The UTF-8 encoding of a code point.\<close>

definition utf8 :: "int \<Rightarrow> string" where
  "utf8 n =
     (if n < 0x80 then [char_of n]
      else if n < 0x800 then [char_of (0xC0 + n div 0x40), char_of (0x80 + n mod 0x40)]
      else if n < 0x10000
      then [char_of (0xE0 + n div 0x1000), char_of (0x80 + n div 0x40 mod 0x40),
            char_of (0x80 + n mod 0x40)]
      else [char_of (0xF0 + n div 0x40000), char_of (0x80 + n div 0x1000 mod 0x40),
            char_of (0x80 + n div 0x40 mod 0x40), char_of (0x80 + n mod 0x40)])"

text \<open>
  The 29 code points for which \<open>str.isspace\<close> holds, which are the ones \<open>strip\<close> and
  \<open>split\<close> remove: tab, line feed, vertical tab, form feed, carriage return, the
  separators \<open>0x1C\<close> to \<open>0x1F\<close>, the space, \<open>U+0085\<close>, \<open>U+00A0\<close>, \<open>U+1680\<close>, \<open>U+2000\<close> to
  \<open>U+200A\<close>, \<open>U+2028\<close>, \<open>U+2029\<close>, \<open>U+202F\<close>, \<open>U+205F\<close> and \<open>U+3000\<close>.
\<close>

definition whitespace_code_points :: "int list" where
  "whitespace_code_points =
     [0x09, 0x0A, 0x0B, 0x0C, 0x0D, 0x1C, 0x1D, 0x1E, 0x1F, 0x20, 0x85, 0xA0, 0x1680,
      0x2000, 0x2001, 0x2002, 0x2003, 0x2004, 0x2005, 0x2006, 0x2007, 0x2008, 0x2009,
      0x200A, 0x2028, 0x2029, 0x202F, 0x205F, 0x3000]"

text \<open>Their encodings, written out (\<open>whitespace_chars_utf8\<close> below checks them).\<close>

definition whitespace_chars :: "string list" where
  "whitespace_chars =
     [[CHR 0x09], [CHR 0x0A], [CHR 0x0B], [CHR 0x0C], [CHR 0x0D],
      [CHR 0x1C], [CHR 0x1D], [CHR 0x1E], [CHR 0x1F], [CHR 0x20],
      [CHR 0xC2, CHR 0x85], [CHR 0xC2, CHR 0xA0], [CHR 0xE1, CHR 0x9A, CHR 0x80],
      [CHR 0xE2, CHR 0x80, CHR 0x80], [CHR 0xE2, CHR 0x80, CHR 0x81],
      [CHR 0xE2, CHR 0x80, CHR 0x82], [CHR 0xE2, CHR 0x80, CHR 0x83],
      [CHR 0xE2, CHR 0x80, CHR 0x84], [CHR 0xE2, CHR 0x80, CHR 0x85],
      [CHR 0xE2, CHR 0x80, CHR 0x86], [CHR 0xE2, CHR 0x80, CHR 0x87],
      [CHR 0xE2, CHR 0x80, CHR 0x88], [CHR 0xE2, CHR 0x80, CHR 0x89],
      [CHR 0xE2, CHR 0x80, CHR 0x8A], [CHR 0xE2, CHR 0x80, CHR 0xA8],
      [CHR 0xE2, CHR 0x80, CHR 0xA9], [CHR 0xE2, CHR 0x80, CHR 0xAF],
      [CHR 0xE2, CHR 0x81, CHR 0x9F], [CHR 0xE3, CHR 0x80, CHR 0x80]]"

text \<open>\<open>str.isspace\<close> on one character\<close>

definition is_space :: "string \<Rightarrow> bool" where
  "is_space ch = (ch \<in> set whitespace_chars)"

text \<open>\<open>s.strip()\<close>: the white space characters at both ends are removed.\<close>

definition strip_chars :: "string list \<Rightarrow> string list" where
  "strip_chars cs = rev (dropWhile is_space (rev (dropWhile is_space cs)))"

definition str_strip :: "string \<Rightarrow> string" where
  "str_strip s = concat (strip_chars (str_chars s))"

text \<open>\<open>s.split()\<close>: the maximal runs of characters that are not white space.\<close>

function split_chars :: "string list \<Rightarrow> string list list" where
  "split_chars cs =
     (let cs' = dropWhile is_space cs
      in if cs' = [] then []
         else takeWhile (\<lambda>c. \<not> is_space c) cs'
              # split_chars (dropWhile (\<lambda>c. \<not> is_space c) cs'))"
  by pat_completeness auto
termination
proof (relation "measure length")
  show "wf (measure length)" by simp
next
  fix cs cs' :: "string list"
  assume cs': "cs' = dropWhile is_space cs" and ne: "cs' \<noteq> []"
  from ne obtain x xs where x: "cs' = x # xs" by (cases cs') simp_all
  have "\<not> is_space (hd cs')"
    using ne hd_dropWhile [of is_space cs] unfolding cs' by simp
  then have "\<not> is_space x" unfolding x by simp
  then have "dropWhile (\<lambda>c. \<not> is_space c) cs' = dropWhile (\<lambda>c. \<not> is_space c) xs"
    using x by simp
  moreover have "length (dropWhile (\<lambda>c. \<not> is_space c) xs) \<le> length xs"
    by (rule length_dropWhile_le)
  moreover have "length cs' \<le> length cs"
    unfolding cs' by (rule length_dropWhile_le)
  ultimately show "(dropWhile (\<lambda>c. \<not> is_space c) cs', cs) \<in> measure length"
    using x by simp
qed

definition str_split_ws :: "string \<Rightarrow> string list" where
  "str_split_ws s = map concat (split_chars (str_chars s))"

text \<open>\<open>s[:n]\<close> and \<open>len(s)\<close>, which count characters\<close>

definition str_slice_to :: "nat \<Rightarrow> string \<Rightarrow> string" where
  "str_slice_to n s = concat (take n (str_chars s))"

definition str_len :: "string \<Rightarrow> nat" where
  "str_len s = length (str_chars s)"

text \<open>
  The shape of the characters that \<open>str_chars\<close> returns, used to reason about it: the
  bytes after the first are continuation bytes, and every character but the first of the
  text starts with a byte that is not one.
\<close>

definition tailed :: "string \<Rightarrow> bool" where
  "tailed ch = (ch \<noteq> [] \<and> list_all is_cont (tl ch))"

definition headed :: "string \<Rightarrow> bool" where
  "headed ch = (tailed ch \<and> \<not> is_cont (hd ch))"

fun chain :: "string list \<Rightarrow> bool" where
  "chain [] = True"
| "chain (ch # cs) = (tailed ch \<and> list_all headed cs)"

text \<open>\<open>s.split(sep)\<close> for a separator of one character: every occurrence cuts, empty
  pieces are kept, and the result always has at least one piece.\<close>

fun str_split_char :: "char \<Rightarrow> string \<Rightarrow> string list" where
  "str_split_char sep [] = [[]]"
| "str_split_char sep (c # cs) =
     (if c = sep then [] # str_split_char sep cs
      else (case str_split_char sep cs of
              [] \<Rightarrow> [[c]]
            | p # ps \<Rightarrow> (c # p) # ps))"

text \<open>\<open>s.startswith(p)\<close>, \<open>s.endswith(p)\<close> and \<open>sub in s\<close>\<close>

definition str_startswith :: "string \<Rightarrow> string \<Rightarrow> bool" where
  "str_startswith s p = (take (length p) s = p)"

definition str_endswith :: "string \<Rightarrow> string \<Rightarrow> bool" where
  "str_endswith s p = (length p \<le> length s \<and> drop (length s - length p) s = p)"

fun str_contains :: "string \<Rightarrow> string \<Rightarrow> bool" where
  "str_contains sub [] = (sub = [])"
| "str_contains sub (c # cs) = (str_startswith (c # cs) sub \<or> str_contains sub cs)"

text \<open>\<open>s.split(sep, 1)\<close>: the text before and after the first occurrence of \<open>sep\<close>, or
  \<open>None\<close> when \<open>sep\<close> does not occur (Python then returns the one-element list \<open>[s]\<close>).\<close>

fun str_split_once :: "string \<Rightarrow> string \<Rightarrow> (string \<times> string) option" where
  "str_split_once sep [] = (if sep = [] then Some ([], []) else None)"
| "str_split_once sep (c # cs) =
     (if str_startswith (c # cs) sep then Some ([], drop (length sep) (c # cs))
      else (case str_split_once sep cs of
              None \<Rightarrow> None
            | Some (a, b) \<Rightarrow> Some (c # a, b)))"

text \<open>\<open>sep.join(parts)\<close>\<close>

fun str_join :: "string \<Rightarrow> string list \<Rightarrow> string" where
  "str_join sep [] = []"
| "str_join sep [p] = p"
| "str_join sep (p # q # ps) = p @ sep @ str_join sep (q # ps)"

text \<open>
  \<open>s.upper()\<close>, which the code only searches for \<open>AROUND(\<close>. The ASCII letters are
  mapped as Python maps them and every other byte is kept. Python maps the other
  characters too, but only two of them to text with a character of \<open>AROUND(\<close>:
  \<open>U+0149\<close> to \<open>U+02BC N\<close> and \<open>U+1E9A\<close> to \<open>A U+02BE\<close>, where the \<open>N\<close> does not
  follow a \<open>U\<close> and the \<open>A\<close> is not followed by an \<open>R\<close>; so the search finds the same.
\<close>

definition char_upper :: "char \<Rightarrow> char" where
  "char_upper c =
     (if (97::nat) \<le> of_char c \<and> of_char c \<le> (122::nat)
      then char_of (of_char c - (32::nat)) else c)"

definition str_upper :: "string \<Rightarrow> string" where
  "str_upper s = map char_upper s"

text \<open>\<open>s.replace(old, new)\<close> for \<open>old\<close> of one character\<close>

definition str_replace_char :: "char \<Rightarrow> string \<Rightarrow> string \<Rightarrow> string" where
  "str_replace_char old new s = concat (map (\<lambda>c. if c = old then new else [c]) s)"

section \<open>urllib.parse.quote_plus\<close>

text \<open>
  The standard library's \<open>quote\<close> works on the UTF-8 bytes of its argument: a byte of
  the always-safe set (letters, digits, \<open>_.-~\<close>) or of \<open>safe\<close> stands for itself, every
  other byte becomes \<open>%XX\<close> with two upper-case hexadecimal digits. \<open>quote_plus\<close> calls
  \<open>quote\<close> with the space added to \<open>safe\<close> and then replaces each space by \<open>+\<close>; when
  the text has no space it is \<open>quote\<close> with an empty \<open>safe\<close>.
\<close>

definition always_safe :: "char \<Rightarrow> bool" where
  "always_safe c =
     (c \<in> set ''ABCDEFGHIJKLMNOPQRSTUVWXYZabcdefghijklmnopqrstuvwxyz0123456789_.-~'')"

definition hex_digit :: "nat \<Rightarrow> char" where
  "hex_digit n = ''0123456789ABCDEF'' ! (n mod 16)"

definition byte_quoter :: "string \<Rightarrow> char \<Rightarrow> string" where
  "byte_quoter safe c =
     (if always_safe c \<or> c \<in> set safe then [c]
      else [CHR ''%'', hex_digit (of_char c div 16), hex_digit (of_char c mod 16)])"

definition quote :: "string \<Rightarrow> string \<Rightarrow> string" where
  "quote s safe = concat (map (byte_quoter safe) s)"

definition quote_plus :: "string \<Rightarrow> string" where
  "quote_plus s =
     (if CHR '' '' \<notin> set s then quote s []
      else str_replace_char (CHR '' '') ''+'' (quote s '' ''))"

section \<open>utils.py: build_search_url\<close>

text \<open>
  \<open>additional_params\<close> is an optional dictionary; it is an association list here, empty
  for the empty dictionary (which Python's \<open>and\<close> reads as false), and its values are
  strings, as the caller passes them (\<open>strftime("%Y-%m-%d")\<close>).
\<close>

type_synonym params = "(string \<times> string) list"

text \<open>\<open>additional_params and 'date' in additional_params\<close>\<close>

definition has_date :: "params option \<Rightarrow> bool" where
  "has_date additional_params =
     (case additional_params of
        None \<Rightarrow> False
      | Some d \<Rightarrow> d \<noteq> [] \<and> map_of d ''date'' \<noteq> None)"

text \<open>\<open>additional_params['date']\<close>, read only where \<open>has_date\<close> holds\<close>

definition get_date :: "params option \<Rightarrow> string" where
  "get_date additional_params =
     (case additional_params of
        None \<Rightarrow> []
      | Some d \<Rightarrow> (case map_of d ''date'' of None \<Rightarrow> [] | Some v \<Rightarrow> v))"

text \<open>The query assembled by lines 132 to 172 of \<open>build_search_url\<close>.\<close>

definition build_query :: "string \<Rightarrow> string \<Rightarrow> params option \<Rightarrow> string" where
  "build_query operator search_term0 additional_params =
     (let search_term = str_strip search_term0
      in if operator \<in> set [''before:'', ''after:''] then
           (if has_date additional_params
            then operator @ get_date additional_params @ '' '' @ search_term
            else operator @ ''2020-01-01 '' @ search_term)
         else if operator = ''daterange:'' then
           (if has_date additional_params
            then (let year = str_slice_to 4 (get_date additional_params)
                  in ''after:'' @ year @ ''-01-01 before:'' @ year @ ''-12-31 '' @ search_term)
            else ''after:2020-01-01 before:2021-12-31 '' @ search_term)
         else if operator = ''around(X):'' then
           (if \<not> str_contains ''AROUND('' (str_upper search_term)
            then (let parts = str_split_ws search_term
                  in if length parts \<ge> 2
                     then hd parts @ '' AROUND(5) '' @ str_join '' '' (tl parts)
                     else search_term @ '' AROUND(5) related'')
            else search_term)
         else if str_endswith operator '':'' then
           (if operator \<in> set [''site:'', ''related:'', ''cache:'', ''link:'', ''info:'']
            then operator @ search_term
            else if CHR '' '' \<in> set search_term
                    \<and> \<not> (str_startswith search_term [dquote] \<and> str_endswith search_term [dquote])
                 then operator @ [dquote] @ search_term @ [dquote]
                 else operator @ search_term)
         else operator @ '' '' @ search_term)"

text \<open>Lines 174 to 180: the query is encoded and put into the fixed template.\<close>

definition search_url :: "string \<Rightarrow> string" where
  "search_url query =
     (let encoded_query = quote_plus query
      in ''https://www.google.com/search?q='' @ encoded_query @ ''&num=100'')"

definition build_search_url :: "string \<Rightarrow> string \<Rightarrow> params option \<Rightarrow> string" where
  "build_search_url operator search_term additional_params =
     search_url (build_query operator search_term additional_params)"



section \<open>utils.py: clean_search_term and validate_batch_input\<close>

definition harmful_chars :: "char list" where
  "harmful_chars = [CHR ''<'', CHR ''>'', CHR ''&'', dquote, squote]"

text \<open>The loop \<open>for char in harmful_chars: search_term = search_term.replace(char, '')\<close>\<close>

fun remove_chars :: "char list \<Rightarrow> string \<Rightarrow> string" where
  "remove_chars [] search_term = search_term"
| "remove_chars (char # chars) search_term =
     remove_chars chars (str_replace_char char [] search_term)"

definition clean_search_term :: "string \<Rightarrow> string" where
  "clean_search_term search_term0 =
     (if search_term0 = [] then []
      else (let search_term = str_join '' '' (str_split_ws search_term0);
                search_term = remove_chars harmful_chars search_term
            in str_strip search_term))"

text \<open>The loop that cleans each line and keeps the results that are not empty.\<close>

fun clean_lines :: "string list \<Rightarrow> string list \<Rightarrow> string list" where
  "clean_lines [] cleaned_queries = cleaned_queries"
| "clean_lines (line # lines) cleaned_queries =
     (let cleaned = clean_search_term line
      in clean_lines lines
           (if cleaned \<noteq> [] then cleaned_queries @ [cleaned] else cleaned_queries))"

text \<open>\<open>[line.strip() for line in batch_input.split('\n') if line.strip()]\<close>\<close>

definition batch_lines :: "string \<Rightarrow> string list" where
  "batch_lines batch_input =
     map str_strip (filter (\<lambda>line. str_strip line \<noteq> []) (str_split_char newline batch_input))"

definition validate_batch_input :: "string \<Rightarrow> bool \<times> string list \<times> string" where
  "validate_batch_input batch_input =
     (if batch_input = [] \<or> str_strip batch_input = []
      then (False, [], ''Batch input cannot be empty'')
      else (let lines = batch_lines batch_input
            in if lines = [] then (False, [], ''No valid queries found'')
               else if length lines > 50
               then (False, [], ''Maximum 50 queries allowed in batch mode'')
               else (let cleaned_queries = clean_lines lines []
                     in if cleaned_queries = []
                        then (False, [], ''No valid queries after cleaning'')
                        else (True, cleaned_queries, []))))"

section \<open>utils.py: the history file\<close>

text \<open>
  A JSON document, as \<open>json.load\<close> returns it. A file of the working directory is
  missing, holds text that is not JSON, or holds a document; \<open>json.dump\<close> followed by
  \<open>json.load\<close> is taken to give back the document that was written, which holds for
  lists of dictionaries with string keys. \<open>io\<close> says whether the operating system lets
  the access go through; a failing one raises \<open>IOError\<close>, which both functions catch
  (and report with \<open>print\<close>, which the model leaves out).
\<close>

datatype json =
    JNull
  | JBool bool
  | JInt int
  | JStr string
  | JList "json list"
  | JDict "(string \<times> json) list"

datatype file_state = Missing | Corrupt | Stored json

type_synonym filesystem = "string \<Rightarrow> file_state"

datatype io = Succeeds | Fails

definition HISTORY_FILE :: string where
  "HISTORY_FILE = ''search_history.json''"

definition load_search_history :: "io \<Rightarrow> filesystem \<Rightarrow> json" where
  "load_search_history io fs =
     (case fs HISTORY_FILE of
        Missing \<Rightarrow> JList []
      | Corrupt \<Rightarrow> JList []
      | Stored doc \<Rightarrow> (case io of Fails \<Rightarrow> JList [] | Succeeds \<Rightarrow> doc))"

definition save_search_history :: "io \<Rightarrow> json list \<Rightarrow> filesystem \<Rightarrow> filesystem" where
  "save_search_history io history0 fs =
     (let history = (if length history0 > 1000
                     then drop (length history0 - 1000) history0 else history0)
      in case io of
           Fails \<Rightarrow> fs
         | Succeeds \<Rightarrow> fs(HISTORY_FILE := Stored (JList history)))"

section \<open>utils.py: validate_url\<close>

text \<open>
  The pattern of \<open>validate_url\<close> is a value of the type \<open>regex\<close>; a character class is
  its list of inclusive ranges. \<open>re.match\<close> finds a match when some way of reading the
  pattern fits, so it is decided by the language of the pattern, here with derivatives.
\<close>

datatype regex =
    Nul
  | Eps
  | Chars "(char \<times> char) list"
  | Seq regex regex
  | Alt regex regex
  | Opt regex
  | Star regex

fun in_ranges :: "(char \<times> char) list \<Rightarrow> char \<Rightarrow> bool" where
  "in_ranges [] c = False"
| "in_ranges ((lo, hi) # rs) c =
     (((of_char lo :: nat) \<le> of_char c \<and> (of_char c :: nat) \<le> of_char hi) \<or> in_ranges rs c)"

fun nullable :: "regex \<Rightarrow> bool" where
  "nullable Nul = False"
| "nullable Eps = True"
| "nullable (Chars rs) = False"
| "nullable (Seq r s) = (nullable r \<and> nullable s)"
| "nullable (Alt r s) = (nullable r \<or> nullable s)"
| "nullable (Opt r) = True"
| "nullable (Star r) = True"

fun deriv :: "char \<Rightarrow> regex \<Rightarrow> regex" where
  "deriv c Nul = Nul"
| "deriv c Eps = Nul"
| "deriv c (Chars rs) = (if in_ranges rs c then Eps else Nul)"
| "deriv c (Seq r s) =
     (if nullable r then Alt (Seq (deriv c r) s) (deriv c s) else Seq (deriv c r) s)"
| "deriv c (Alt r s) = Alt (deriv c r) (deriv c s)"
| "deriv c (Opt r) = deriv c r"
| "deriv c (Star r) = Seq (deriv c r) (Star r)"

definition re_accepts :: "regex \<Rightarrow> string \<Rightarrow> bool" where
  "re_accepts r s = nullable (fold deriv s r)"

text \<open>\<open>r{0,n}\<close>\<close>

fun rep_upto :: "regex \<Rightarrow> nat \<Rightarrow> regex" where
  "rep_upto r 0 = Eps"
| "rep_upto r (Suc n) = Opt (Seq r (rep_upto r n))"

text \<open>\<open>re.match('^r$', s)\<close>: without the MULTILINE flag \<open>$\<close> matches at the end of the
  text and also just before a line feed that ends the text.\<close>

definition re_match_anchored :: "regex \<Rightarrow> string \<Rightarrow> bool" where
  "re_match_anchored r s =
     (re_accepts r s \<or> (s \<noteq> [] \<and> last s = newline \<and> re_accepts r (butlast s)))"

definition alnum :: "(char \<times> char) list" where
  "alnum = [(CHR ''a'', CHR ''z''), (CHR ''A'', CHR ''Z''), (CHR ''0'', CHR ''9'')]"

definition alnum_hyphen :: "(char \<times> char) list" where
  "alnum_hyphen = [(CHR ''a'', CHR ''z''), (CHR ''A'', CHR ''Z''), (CHR ''0'', CHR ''9''),
                   (CHR ''-'', CHR ''-'')]"

text \<open>\<open>[a-zA-Z0-9]([a-zA-Z0-9\-]{0,61}[a-zA-Z0-9])?\<close>\<close>

definition label_pattern :: regex where
  "label_pattern =
     Seq (Chars alnum) (Opt (Seq (rep_upto (Chars alnum_hyphen) 61) (Chars alnum)))"

text \<open>\<open>^[a-zA-Z0-9]([a-zA-Z0-9\-]{0,61}[a-zA-Z0-9])?(\.[a-zA-Z0-9]([a-zA-Z0-9\-]{0,61}[a-zA-Z0-9])?)*$\<close>
  without its anchors\<close>

definition domain_pattern :: regex where
  "domain_pattern =
     Seq label_pattern (Star (Seq (Chars [(CHR ''.'', CHR ''.'')]) label_pattern))"

datatype py_error = IndexError

text \<open>\<open>url.split('://', 1)[1]\<close> and \<open>url.split('/')[0]\<close>, with the index error of a
  list that is too short\<close>

definition after_scheme :: "string \<Rightarrow> py_error + string" where
  "after_scheme url =
     (case str_split_once ''://'' url of
        None \<Rightarrow> Inl IndexError
      | Some (before, rest) \<Rightarrow> Inr rest)"

definition before_path :: "string \<Rightarrow> py_error + string" where
  "before_path url =
     (case str_split_char (CHR ''/'') url of
        [] \<Rightarrow> Inl IndexError
      | first # others \<Rightarrow> Inr first)"

definition validate_url :: "string \<Rightarrow> py_error + bool" where
  "validate_url url0 =
     (if url0 = [] then Inr False
      else (let url = str_strip url0
            in case (if str_startswith url ''http://'' \<or> str_startswith url ''https://''
                     then after_scheme url else Inr url) of
                 Inl e \<Rightarrow> Inl e
               | Inr url1 \<Rightarrow>
                   (case before_path url1 of
                      Inl e \<Rightarrow> Inl e
                    | Inr url2 \<Rightarrow>
                        Inr (re_match_anchored domain_pattern url2 \<and> str_len url2 \<le> 253))))"

text \<open>The grammar in the words of the specification: a label has 1 to 63 characters,
  letters, digits and hyphens, and neither starts nor ends with a hyphen; a domain is one or
  more labels separated by dots. The host is what is left of the text once an
  \<open>http://\<close> or \<open>https://\<close> prefix and everything from the first \<open>/\<close> on are removed.\<close>

definition is_alnum :: "char \<Rightarrow> bool" where
  "is_alnum c =
     (c \<in> set ''abcdefghijklmnopqrstuvwxyzABCDEFGHIJKLMNOPQRSTUVWXYZ0123456789'')"

definition is_label :: "string \<Rightarrow> bool" where
  "is_label l =
     (1 \<le> length l \<and> length l \<le> 63
      \<and> list_all (\<lambda>c. is_alnum c \<or> c = CHR ''-'') l
      \<and> hd l \<noteq> CHR ''-'' \<and> last l \<noteq> CHR ''-'')"

definition is_domain_name :: "string \<Rightarrow> bool" where
  "is_domain_name s = list_all is_label (str_split_char (CHR ''.'') s)"

definition without_scheme :: "string \<Rightarrow> string" where
  "without_scheme s =
     (if str_startswith s ''http://'' then drop 7 s
      else if str_startswith s ''https://'' then drop 8 s
      else s)"

definition host_part :: "string \<Rightarrow> string" where
  "host_part s = takeWhile (\<lambda>c. c \<noteq> CHR ''/'') (without_scheme s)"

text \<open>The languages of patterns, used to reason about \<open>re_accepts\<close>.\<close>

definition conc :: "string set \<Rightarrow> string set \<Rightarrow> string set" where
  "conc A B = {u @ v | u v. u \<in> A \<and> v \<in> B}"

inductive_set star :: "string set \<Rightarrow> string set" for A :: "string set" where
  star_empty: "[] \<in> star A"
| star_step: "u \<in> A \<Longrightarrow> v \<in> star A \<Longrightarrow> u @ v \<in> star A"

fun lang :: "regex \<Rightarrow> string set" where
  "lang Nul = {}"
| "lang Eps = {[]}"
| "lang (Chars rs) = {[c] | c. in_ranges rs c}"
| "lang (Seq r s) = conc (lang r) (lang s)"
| "lang (Alt r s) = lang r \<union> lang s"
| "lang (Opt r) = insert [] (lang r)"
| "lang (Star r) = star (lang r)"

text \<open>A dot followed by a label: what the starred group of the pattern reads.\<close>

definition dotted_labels :: "string set" where
  "dotted_labels = conc {[CHR ''.'']} {l. is_label l}"

section \<open>search_operators.py\<close>

record operator_info =
  description :: string
  type :: string
  placeholder :: string
  examples :: "string list"

text \<open>The dictionary literal, entry by entry in the order of the source. A key written
  twice (\<open>allintitle:\<close>) keeps the value written last, which is what \<open>py_dict_get\<close>
  reads.\<close>

definition py_dict_get :: "('k \<times> 'v) list \<Rightarrow> 'k \<Rightarrow> 'v option" where
  "py_dict_get entries k = map_of (rev entries) k"

definition SEARCH_OPERATORS :: "(string \<times> operator_info) list" where
  "SEARCH_OPERATORS =
   [
    (''site:'',
     \<lparr>description = ''Search within a specific website or domain'',
      type = ''url'',
      placeholder = ''example.com'',
      examples = [''site:reddit.com python tutorials'', ''site:github.com machine learning'']\<rparr>),
    (''filetype:'',
     \<lparr>description = ''Search for specific file types'',
      type = ''keyword'',
      placeholder = ''pdf machine learning'',
      examples = [''filetype:pdf machine learning'', ''filetype:ppt presentation tips'']\<rparr>),
    (''intitle:'',
     \<lparr>description = ''Search for pages with specific words in the title'',
      type = ''keyword'',
      placeholder = ''python tutorial'',
      examples = [''intitle:python tutorial'', (''intitle:'' @ [CHR 0x22] @ ''data science'' @ [CHR 0x22])]\<rparr>),
    (''allintitle:'',
     \<lparr>description = ''Search for pages with all specified words in the title'',
      type = ''keyword'',
      placeholder = ''python machine learning tutorial'',
      examples = [''allintitle:python machine learning'', ''allintitle:web development guide'']\<rparr>),
    (''inurl:'',
     \<lparr>description = ''Search for pages with specific words in the URL'',
      type = ''keyword'',
      placeholder = ''tutorial'',
      examples = [''inurl:tutorial python'', ''inurl:blog machine learning'']\<rparr>),
    (''allinurl:'',
     \<lparr>description = ''Search for pages with all specified words in the URL'',
      type = ''keyword'',
      placeholder = ''python tutorial'',
      examples = [''allinurl:python tutorial'', ''allinurl:web development'']\<rparr>),
    (''intext:'',
     \<lparr>description = ''Search for pages with specific words in the body text'',
      type = ''keyword'',
      placeholder = ''machine learning'',
      examples = [''intext:machine learning'', (''intext:'' @ [CHR 0x22] @ ''data science'' @ [CHR 0x22])]\<rparr>),
    (''allintext:'',
     \<lparr>description = ''Search for pages with all specified words in the body text'',
      type = ''keyword'',
      placeholder = ''python programming tutorial'',
      examples = [''allintext:python programming'', ''allintext:web development guide'']\<rparr>),
    (''related:'',
     \<lparr>description = ''Find websites related to a specific URL'',
      type = ''url'',
      placeholder = ''example.com'',
      examples = [''related:stackoverflow.com'', ''related:github.com'']\<rparr>),
    (''cache:'',
     \<lparr>description = (''View Google'' @ [CHR 0x27] @ ''s cached version of a webpage''),
      type = ''url'',
      placeholder = ''example.com'',
      examples = [''cache:example.com'', ''cache:stackoverflow.com/questions/123'']\<rparr>),
    (''link:'',
     \<lparr>description = ''Find pages that link to a specific URL'',
      type = ''url'',
      placeholder = ''example.com'',
      examples = [''link:stackoverflow.com'', ''link:github.com'']\<rparr>),
    (''define:'',
     \<lparr>description = ''Get definitions for words or phrases'',
      type = ''keyword'',
      placeholder = ''artificial intelligence'',
      examples = [''define:machine learning'', ''define:cryptocurrency'']\<rparr>),
    (''stocks:'',
     \<lparr>description = ''Get stock information for a company'',
      type = ''keyword'',
      placeholder = ''AAPL'',
      examples = [''stocks:AAPL'', ''stocks:GOOGL'']\<rparr>),
    (''weather:'',
     \<lparr>description = ''Get weather information for a location'',
      type = ''keyword'',
      placeholder = ''New York'',
      examples = [''weather:New York'', ''weather:London'']\<rparr>),
    (''map:'',
     \<lparr>description = ''Show map results for a location'',
      type = ''keyword'',
      placeholder = ''restaurants New York'',
      examples = [''map:restaurants New York'', ''map:hotels Paris'']\<rparr>),
    (''movie:'',
     \<lparr>description = ''Search for movie information and showtimes'',
      type = ''keyword'',
      placeholder = ''Inception'',
      examples = [''movie:Inception'', ''movie:Avengers'']\<rparr>),
    (''source:'',
     \<lparr>description = ''Search Google News for articles from a specific source'',
      type = ''keyword'',
      placeholder = ''CNN'',
      examples = [''source:CNN climate change'', ''source:BBC technology'']\<rparr>),
    (''before:'',
     \<lparr>description = ''Search for content published before a specific date'',
      type = ''keyword'',
      placeholder = ''2020 machine learning'',
      examples = [''before:2020-01-01 machine learning'', ''before:2019 cryptocurrency'']\<rparr>),
    (''after:'',
     \<lparr>description = ''Search for content published after a specific date'',
      type = ''keyword'',
      placeholder = ''2020 AI trends'',
      examples = [''after:2020-01-01 AI trends'', ''after:2021 web development'']\<rparr>),
    (''daterange:'',
     \<lparr>description = ''Search for content within a specific date range'',
      type = ''keyword'',
      placeholder = ''machine learning trends'',
      examples = [''daterange:2020-2021 machine learning'', ''daterange:2019-2020 startup'']\<rparr>),
    (''info:'',
     \<lparr>description = ''Get information about a specific URL'',
      type = ''url'',
      placeholder = ''example.com'',
      examples = [''info:stackoverflow.com'', ''info:github.com'']\<rparr>),
    (''phonebook:'',
     \<lparr>description = ''Search for phone numbers (limited availability)'',
      type = ''keyword'',
      placeholder = ''John Smith New York'',
      examples = [''phonebook:John Smith'', ''phonebook:business name city'']\<rparr>),
    (''bphonebook:'',
     \<lparr>description = ''Search for business phone numbers'',
      type = ''keyword'',
      placeholder = ''pizza New York'',
      examples = [''bphonebook:pizza New York'', ''bphonebook:dentist Chicago'']\<rparr>),
    (''author:'',
     \<lparr>description = ''Search for articles by a specific author in Google Scholar'',
      type = ''keyword'',
      placeholder = ''John Smith'',
      examples = [(''author:'' @ [CHR 0x22] @ ''John Smith'' @ [CHR 0x22] @ '' machine learning''), ''author:Einstein physics'']\<rparr>),
    (''group:'',
     \<lparr>description = ''Search within Google Groups'',
      type = ''keyword'',
      placeholder = ''python programming'',
      examples = [''group:comp.lang.python'', ''group:alt.comp.programming'']\<rparr>),
    (''inanchor:'',
     \<lparr>description = ''Search for pages with specific anchor text in links'',
      type = ''keyword'',
      placeholder = ''click here'',
      examples = [(''inanchor:'' @ [CHR 0x22] @ ''click here'' @ [CHR 0x22]), ''inanchor:download'']\<rparr>),
    (''allinanchor:'',
     \<lparr>description = ''Search for pages with all specified words in anchor text'',
      type = ''keyword'',
      placeholder = ''download free software'',
      examples = [''allinanchor:download free'', ''allinanchor:learn python'']\<rparr>),
    (''around(X):'',
     \<lparr>description = ''Search for pages where two terms appear within X words of each other'',
      type = ''keyword'',
      placeholder = ''python AROUND(5) tutorial'',
      examples = [''python AROUND(10) machine learning'', ''climate AROUND(3) change'']\<rparr>),
    (''loc:'',
     \<lparr>description = ''Search for results from a specific location'',
      type = ''keyword'',
      placeholder = (''restaurants loc:'' @ [CHR 0x22] @ ''New York'' @ [CHR 0x22]),
      examples = [(''restaurants loc:'' @ [CHR 0x22] @ ''New York'' @ [CHR 0x22]), (''events loc:'' @ [CHR 0x22] @ ''San Francisco'' @ [CHR 0x22])]\<rparr>),
    (''location:'',
     \<lparr>description = ''Search for news from a specific location'',
      type = ''keyword'',
      placeholder = (''news location:'' @ [CHR 0x22] @ ''California'' @ [CHR 0x22]),
      examples = [(''news location:'' @ [CHR 0x22] @ ''California'' @ [CHR 0x22]), (''weather location:'' @ [CHR 0x22] @ ''London'' @ [CHR 0x22])]\<rparr>),
    (''AROUND(X):'',
     \<lparr>description = ''Find pages where two terms appear within X words of each other'',
      type = ''keyword'',
      placeholder = ''SEO AROUND(5) optimization'',
      examples = [''digital AROUND(3) marketing'', ''content AROUND(10) strategy'']\<rparr>),
    (([CHR 0x22] @ [CHR 0x22]),
     \<lparr>description = ''Exact phrase search - find pages with the exact phrase'',
      type = ''keyword'',
      placeholder = ([CHR 0x22] @ ''digital marketing strategy'' @ [CHR 0x22]),
      examples = [([CHR 0x22] @ ''content marketing'' @ [CHR 0x22]), ([CHR 0x22] @ ''SEO best practices'' @ [CHR 0x22])]\<rparr>),
    (''*'',
     \<lparr>description = ''Wildcard operator - placeholder for unknown words'',
      type = ''keyword'',
      placeholder = ''best * for SEO'',
      examples = [''best * for marketing'', ''how to * website traffic'']\<rparr>),
    (''OR'',
     \<lparr>description = ''Search for pages containing either term'',
      type = ''keyword'',
      placeholder = ''SEO OR SEM'',
      examples = [''marketing OR advertising'', ''python OR javascript'']\<rparr>),
    (''-'',
     \<lparr>description = ''Exclude terms from search results'',
      type = ''keyword'',
      placeholder = ''digital marketing -ads'',
      examples = [''python tutorials -paid'', ''SEO guide -2019'']\<rparr>),
    (''+'',
     \<lparr>description = ''Include specific terms in search results'',
      type = ''keyword'',
      placeholder = ''+SEO +optimization'',
      examples = [''+digital +marketing tips'', ''+content +strategy'']\<rparr>),
    (''~'',
     \<lparr>description = ''Search for synonyms and related terms'',
      type = ''keyword'',
      placeholder = ''~car information'',
      examples = [''~digital marketing'', ''~website optimization'']\<rparr>),
    (''..'',
     \<lparr>description = ''Search within number ranges'',
      type = ''keyword'',
      placeholder = ''smartphones $200..$500'',
      examples = [''laptops $500..$1000'', ''camera 2020..2023'']\<rparr>),
    (''imagesize:'',
     \<lparr>description = ''Find images of specific dimensions'',
      type = ''keyword'',
      placeholder = ''imagesize:1920x1080'',
      examples = [''imagesize:800x600 wallpaper'', ''imagesize:1024x768 screenshot'']\<rparr>),
    (''safesearch:'',
     \<lparr>description = ''Control safe search filtering'',
      type = ''keyword'',
      placeholder = ''safesearch:off'',
      examples = [''safesearch:on family content'', ''safesearch:off research'']\<rparr>),
    (''blogurl:'',
     \<lparr>description = ''Search within blog URLs'',
      type = ''url'',
      placeholder = ''blogurl:medium.com'',
      examples = [''blogurl:wordpress.com SEO'', ''blogurl:blogger.com marketing'']\<rparr>),
    (''haschange:'',
     \<lparr>description = ''Find pages that have changed recently'',
      type = ''keyword'',
      placeholder = ''haschange:speed'',
      examples = [''haschange:update website'', ''haschange:new product launch'']\<rparr>),
    (''inposttitle:'',
     \<lparr>description = ''Search within blog post titles'',
      type = ''keyword'',
      placeholder = ''inposttitle:SEO tips'',
      examples = [''inposttitle:marketing strategy'', ''inposttitle:web development'']\<rparr>),
    (''inpostauthor:'',
     \<lparr>description = ''Search by blog post author'',
      type = ''keyword'',
      placeholder = (''inpostauthor:'' @ [CHR 0x22] @ ''John Smith'' @ [CHR 0x22]),
      examples = [(''inpostauthor:'' @ [CHR 0x22] @ ''Neil Patel'' @ [CHR 0x22]), (''inpostauthor:'' @ [CHR 0x22] @ ''Rand Fishkin'' @ [CHR 0x22])]\<rparr>),
    (''allintitle:'',
     \<lparr>description = ''All specified words must appear in title'',
      type = ''keyword'',
      placeholder = ''allintitle:SEO guide 2024'',
      examples = [''allintitle:digital marketing strategy'', ''allintitle:web development tutorial'']\<rparr>),
    (''id:'',
     \<lparr>description = ''Search for specific page or post ID'',
      type = ''keyword'',
      placeholder = ''id:12345'',
      examples = [''id:wordpress-123'', ''id:blog-post-456'']\<rparr>)
   ]"

definition get_operator_info :: "string \<Rightarrow> operator_info" where
  "get_operator_info operator_name =
     (case py_dict_get SEARCH_OPERATORS operator_name of
        Some info \<Rightarrow> info
      | None \<Rightarrow> \<lparr>description = ''Unknown operator'',
                 type = ''keyword'',
                 placeholder = ''search term'',
                 examples = []\<rparr>)"

declare split_chars.simps [simp del]

section \<open>Properties of the string functions\<close>

lemma whitespace_chars_utf8: "whitespace_chars = map utf8 whitespace_code_points"
  by code_simp

lemma whitespace_chars_headed: "list_all headed whitespace_chars"
  by code_simp

lemma is_space_headed: "is_space ch \<Longrightarrow> headed ch"
  using whitespace_chars_headed by (simp add: is_space_def list_all_iff)

lemma strip_chars_idem: "strip_chars (strip_chars s) = strip_chars s"
proof -
  define a where "a = dropWhile is_space s"
  define b where "b = dropWhile is_space (rev a)"
  have "rev a = takeWhile is_space (rev a) @ b"
    unfolding b_def by simp
  then have "rev (rev a) = rev (takeWhile is_space (rev a) @ b)"
    by (rule arg_cong)
  then have a_split: "a = rev b @ rev (takeWhile is_space (rev a))"
    by simp
  have "dropWhile is_space (rev b) = rev b"
  proof (cases "rev b")
    case Nil
    then show ?thesis by simp
  next
    case (Cons x xs)
    with a_split have "a = x # xs @ rev (takeWhile is_space (rev a))" by simp
    then have ne: "a \<noteq> []" and hd: "hd a = x"
      by (metis list.distinct(1), metis list.sel(1))
    have "\<not> is_space (hd a)"
      using ne hd_dropWhile [of is_space s] unfolding a_def by simp
    with hd Cons show ?thesis by simp
  qed
  moreover have "dropWhile is_space b = b"
    unfolding b_def by simp
  ultimately show ?thesis
    unfolding strip_chars_def a_def [symmetric] b_def [symmetric] by simp
qed

lemma split_chars_blank:
  "(\<forall>c\<in>set s. is_space c) \<Longrightarrow> split_chars s = []"
  by (subst split_chars.simps) (simp add: Let_def dropWhile_eq_Nil_conv)

lemma split_chars_dropWhile:
  "split_chars (dropWhile is_space s) = split_chars s"
  by (subst split_chars.simps, subst (2) split_chars.simps) (simp add: Let_def)

lemma split_chars_trailing:
  "(\<forall>c\<in>set v. is_space c) \<Longrightarrow> split_chars (u @ v) = split_chars u"
proof (induction u rule: split_chars.induct)
  case (1 s)
  define s' where "s' = dropWhile is_space s"
  show ?case
  proof (cases "s' = []")
    case True
    then have "\<forall>c\<in>set s. is_space c"
      by (simp add: s'_def dropWhile_eq_Nil_conv)
    with "1.prems" have "\<forall>c\<in>set (s @ v). is_space c" by auto
    then have "split_chars (s @ v) = []" by (rule split_chars_blank)
    moreover have "split_chars s = []"
      using \<open>\<forall>c\<in>set s. is_space c\<close> by (rule split_chars_blank)
    ultimately show ?thesis by simp
  next
    case False
    then obtain x where x: "x \<in> set s" "\<not> is_space x"
      by (auto simp: s'_def dropWhile_eq_Nil_conv)
    then have dw: "dropWhile is_space (s @ v) = s' @ v"
      unfolding s'_def by simp
    have IH: "split_chars (dropWhile (\<lambda>c. \<not> is_space c) s' @ v)
                = split_chars (dropWhile (\<lambda>c. \<not> is_space c) s')"
      using "1.IH" [OF s'_def False "1.prems"] .
    have tail: "takeWhile (\<lambda>c. \<not> is_space c) (s' @ v) = takeWhile (\<lambda>c. \<not> is_space c) s'
                \<and> split_chars (dropWhile (\<lambda>c. \<not> is_space c) (s' @ v))
                    = split_chars (dropWhile (\<lambda>c. \<not> is_space c) s')"
    proof (cases "\<forall>c\<in>set s'. \<not> is_space c")
      case True
      have tv: "takeWhile (\<lambda>c. \<not> is_space c) v = []"
        using "1.prems" by (cases v) auto
      have dv: "dropWhile (\<lambda>c. \<not> is_space c) v = v"
        using "1.prems" by (cases v) auto
      from True have t1: "takeWhile (\<lambda>c. \<not> is_space c) (s' @ v) = s'"
        by (simp add: tv)
      from True have t2: "takeWhile (\<lambda>c. \<not> is_space c) s' = s'"
        by simp
      from True have d1: "dropWhile (\<lambda>c. \<not> is_space c) (s' @ v) = v"
        by (simp add: dv)
      from True have d2: "dropWhile (\<lambda>c. \<not> is_space c) s' = []"
        by simp
      have e1: "split_chars v = []"
        using "1.prems" by (rule split_chars_blank)
      have e2: "split_chars [] = []"
        by (rule split_chars_blank) simp
      show ?thesis
        unfolding t1 t2 d1 d2 e1 e2 by (intro conjI refl)
    next
      case False
      then obtain y where "y \<in> set s'" "\<not> \<not> is_space y" by blast
      then have "takeWhile (\<lambda>c. \<not> is_space c) (s' @ v) = takeWhile (\<lambda>c. \<not> is_space c) s'"
        and "dropWhile (\<lambda>c. \<not> is_space c) (s' @ v) = dropWhile (\<lambda>c. \<not> is_space c) s' @ v"
        by simp_all
      with IH show ?thesis by simp
    qed
    have "split_chars (s @ v)
            = takeWhile (\<lambda>c. \<not> is_space c) (s' @ v)
              # split_chars (dropWhile (\<lambda>c. \<not> is_space c) (s' @ v))"
      using False by (subst split_chars.simps) (simp add: Let_def dw)
    moreover have "split_chars s
            = takeWhile (\<lambda>c. \<not> is_space c) s'
              # split_chars (dropWhile (\<lambda>c. \<not> is_space c) s')"
      using False by (subst split_chars.simps) (simp add: Let_def s'_def)
    ultimately show ?thesis using tail by simp
  qed
qed

lemma strip_chars_decompose:
  "dropWhile is_space s = strip_chars s @ rev (takeWhile is_space (rev (dropWhile is_space s)))"
proof -
  let ?d = "dropWhile is_space s"
  have "takeWhile is_space (rev ?d) @ dropWhile is_space (rev ?d) = rev ?d"
    by (rule takeWhile_dropWhile_id)
  then have "rev (takeWhile is_space (rev ?d) @ dropWhile is_space (rev ?d)) = rev (rev ?d)"
    by (rule arg_cong)
  then have "rev (dropWhile is_space (rev ?d)) @ rev (takeWhile is_space (rev ?d)) = ?d"
    by (simp only: rev_append rev_rev_ident)
  then show ?thesis
    unfolding strip_chars_def by (rule sym)
qed

lemma split_chars_strip: "split_chars (strip_chars s) = split_chars s"
proof -
  let ?trail = "rev (takeWhile is_space (rev (dropWhile is_space s)))"
  have "\<forall>c\<in>set ?trail. is_space c"
    by (auto dest: set_takeWhileD)
  then have "split_chars (strip_chars s @ ?trail) = split_chars (strip_chars s)"
    by (rule split_chars_trailing)
  then have "split_chars (dropWhile is_space s) = split_chars (strip_chars s)"
    using strip_chars_decompose [of s] by simp
  then show ?thesis
    by (simp add: split_chars_dropWhile)
qed


lemma split_chars_single:
  assumes "split_chars s = [w]"
  shows "strip_chars s = w"
proof -
  define s' where "s' = dropWhile is_space s"
  define rest where "rest = dropWhile (\<lambda>c. \<not> is_space c) s'"
  have ne: "s' \<noteq> []"
  proof
    assume "s' = []"
    then have "split_chars s = []"
      by (subst split_chars.simps) (simp add: Let_def s'_def)
    with assms show False by simp
  qed
  then have unfold: "split_chars s = takeWhile (\<lambda>c. \<not> is_space c) s' # split_chars rest"
    by (subst split_chars.simps) (simp add: Let_def s'_def rest_def)
  with assms have w: "w = takeWhile (\<lambda>c. \<not> is_space c) s'" and r: "split_chars rest = []"
    by simp_all
  have rest_blank: "\<forall>c\<in>set rest. is_space c"
  proof (rule ccontr)
    assume "\<not> (\<forall>c\<in>set rest. is_space c)"
    then have "dropWhile is_space rest \<noteq> []"
      by (simp add: dropWhile_eq_Nil_conv)
    then have "split_chars rest \<noteq> []"
      by (subst split_chars.simps) (simp add: Let_def)
    with r show False by simp
  qed
  have split: "s' = w @ rest"
    unfolding w rest_def by simp
  have "\<not> is_space (hd s')"
    using ne hd_dropWhile [of is_space s] unfolding s'_def by simp
  with ne have wne: "w \<noteq> []"
    unfolding w by (cases s') simp_all
  have wall: "\<forall>c\<in>set w. \<not> is_space c"
    unfolding w by (auto dest: set_takeWhileD)
  from wne wall have "\<not> is_space (last w)" by simp
  then have "\<not> is_space (hd (rev w))"
    using wne by (simp add: hd_rev)
  then have keep: "dropWhile is_space (rev w) = rev w"
    using wne by (cases "rev w") simp_all
  have "dropWhile is_space (rev s') = dropWhile is_space (rev rest @ rev w)"
    unfolding split by simp
  also have "\<dots> = dropWhile is_space (rev w)"
  proof (rule dropWhile_append2)
    fix x
    assume "x \<in> set (rev rest)"
    with rest_blank show "is_space x" by simp
  qed
  also note keep
  finally have "rev (dropWhile is_space (rev s')) = w"
    by simp
  then show ?thesis
    unfolding strip_chars_def s'_def .
qed



lemma strip_chars_empty_iff: "strip_chars cs = [] \<longleftrightarrow> list_all is_space cs"
proof -
  have "strip_chars cs = [] \<longleftrightarrow> (\<forall>c\<in>set (dropWhile is_space cs). is_space c)"
    by (simp add: strip_chars_def dropWhile_eq_Nil_conv)
  also have "\<dots> \<longleftrightarrow> dropWhile is_space (dropWhile is_space cs) = []"
    by (simp only: dropWhile_eq_Nil_conv)
  also have "\<dots> \<longleftrightarrow> dropWhile is_space cs = []"
    by simp
  also have "\<dots> \<longleftrightarrow> list_all is_space cs"
    by (simp only: dropWhile_eq_Nil_conv list_all_iff)
  finally show ?thesis .
qed

lemma concat_str_chars: "concat (str_chars s) = s"
  by (induction s rule: str_chars.induct) simp_all

lemma str_chars_headed:
  "s = [] \<or> \<not> is_cont (hd s) \<Longrightarrow> list_all headed (str_chars s)"
proof (induction s rule: str_chars.induct)
  case 1
  show ?case by simp
next
  case (2 b bs)
  have "dropWhile is_cont bs = [] \<or> \<not> is_cont (hd (dropWhile is_cont bs))"
    using hd_dropWhile [of is_cont bs] by blast
  then have "list_all headed (str_chars (dropWhile is_cont bs))"
    by (rule "2.IH")
  moreover from "2.prems" have "headed (b # takeWhile is_cont bs)"
    by (auto simp: headed_def tailed_def list_all_iff dest: set_takeWhileD)
  ultimately show ?case by simp
qed

lemma chain_str_chars: "chain (str_chars s)"
proof (cases s)
  case Nil
  then show ?thesis by simp
next
  case (Cons b bs)
  have "dropWhile is_cont bs = [] \<or> \<not> is_cont (hd (dropWhile is_cont bs))"
    using hd_dropWhile [of is_cont bs] by blast
  then have "list_all headed (str_chars (dropWhile is_cont bs))"
    by (rule str_chars_headed)
  moreover have "tailed (b # takeWhile is_cont bs)"
    by (auto simp: tailed_def list_all_iff dest: set_takeWhileD)
  ultimately show ?thesis using Cons by simp
qed

lemma str_chars_append:
  assumes "tailed ch" and "rest = [] \<or> \<not> is_cont (hd rest)"
  shows "str_chars (ch @ rest) = ch # str_chars rest"
proof -
  from assms(1) obtain b t where ch: "ch = b # t" and t: "\<forall>x\<in>set t. is_cont x"
    by (cases ch) (auto simp: tailed_def list_all_iff)
  from assms(2) have tr: "takeWhile is_cont rest = []" and dr: "dropWhile is_cont rest = rest"
    by (cases rest; simp)+
  from t have "takeWhile is_cont (t @ rest) = t @ takeWhile is_cont rest"
    by (simp add: takeWhile_append2)
  moreover from t have "dropWhile is_cont (t @ rest) = dropWhile is_cont rest"
    by (simp add: dropWhile_append2)
  ultimately show ?thesis
    unfolding ch by (simp add: tr dr)
qed

lemma headed_concat_start:
  "list_all headed cs \<Longrightarrow> concat cs = [] \<or> \<not> is_cont (hd (concat cs))"
  by (cases cs) (auto simp: headed_def tailed_def)

lemma headed_is_chain: "list_all headed cs \<Longrightarrow> chain cs"
  by (cases cs) (auto simp: headed_def)

lemma str_chars_concat: "chain cs \<Longrightarrow> str_chars (concat cs) = cs"
proof (induction cs)
  case Nil
  show ?case by simp
next
  case (Cons ch cs)
  then have t: "tailed ch" and h: "list_all headed cs" by simp_all
  from h have "chain cs" by (rule headed_is_chain)
  then have "str_chars (concat cs) = cs" by (rule Cons.IH)
  moreover have "str_chars (ch @ concat cs) = ch # str_chars (concat cs)"
    using t headed_concat_start [OF h] by (rule str_chars_append)
  ultimately show ?case by simp
qed

lemma chain_append: "chain (xs @ ys) \<Longrightarrow> chain xs \<and> chain ys"
  by (cases xs) (auto intro: headed_is_chain)

lemma chain_strip_chars: "chain cs \<Longrightarrow> chain (strip_chars cs)"
proof -
  assume c: "chain cs"
  have "cs = takeWhile is_space cs @ dropWhile is_space cs" by simp
  with c have "chain (takeWhile is_space cs @ dropWhile is_space cs)" by simp
  then have "chain (dropWhile is_space cs)" by (rule chain_append [THEN conjunct2])
  then have "chain (strip_chars cs @ rev (takeWhile is_space (rev (dropWhile is_space cs))))"
    using strip_chars_decompose [of cs] by simp
  then show ?thesis by (rule chain_append [THEN conjunct1])
qed

lemma str_chars_strip: "str_chars (str_strip s) = strip_chars (str_chars s)"
  unfolding str_strip_def
  by (rule str_chars_concat) (rule chain_strip_chars, rule chain_str_chars)

lemma str_strip_idem: "str_strip (str_strip s) = str_strip s"
  by (simp add: str_strip_def [of "str_strip s"] str_chars_strip strip_chars_idem)
     (simp add: str_strip_def)

lemma chars_nonempty: "chain cs \<Longrightarrow> concat cs = [] \<longleftrightarrow> cs = []"
  by (cases cs) (auto simp: tailed_def)

lemma str_strip_empty_iff: "str_strip s = [] \<longleftrightarrow> list_all is_space (str_chars s)"
proof -
  have "chain (strip_chars (str_chars s))"
    by (rule chain_strip_chars) (rule chain_str_chars)
  then have "str_strip s = [] \<longleftrightarrow> strip_chars (str_chars s) = []"
    unfolding str_strip_def by (rule chars_nonempty)
  then show ?thesis by (simp add: strip_chars_empty_iff)
qed

lemma str_split_ws_strip: "str_split_ws (str_strip s) = str_split_ws s"
  by (simp add: str_split_ws_def str_chars_strip split_chars_strip)

lemma str_split_ws_single:
  assumes "str_split_ws s = [w]"
  shows "str_strip s = w"
proof -
  from assms obtain ws where ws: "split_chars (str_chars s) = [ws]" and w: "concat ws = w"
    by (auto simp: str_split_ws_def map_eq_Cons_conv)
  from ws have "strip_chars (str_chars s) = ws" by (rule split_chars_single)
  with w show ?thesis by (simp add: str_strip_def)
qed

lemma str_upper_around: "str_upper ''around(X):'' = ''AROUND(X):''"
  by code_simp

lemma str_startswith_iff: "str_startswith t p \<longleftrightarrow> (\<exists>b. t = p @ b)"
proof
  assume "str_startswith t p"
  then have "take (length p) t = p" by (simp add: str_startswith_def)
  then have "t = p @ drop (length p) t"
    using append_take_drop_id [of "length p" t] by simp
  then show "\<exists>b. t = p @ b" ..
next
  assume "\<exists>b. t = p @ b"
  then show "str_startswith t p" by (auto simp: str_startswith_def)
qed

lemma str_contains_iff: "str_contains sub t \<longleftrightarrow> (\<exists>a b. t = a @ sub @ b)"
proof (induction t)
  case Nil
  show ?case by auto
next
  case (Cons c cs)
  show ?case
  proof
    assume "str_contains sub (c # cs)"
    then consider "str_startswith (c # cs) sub" | "str_contains sub cs" by auto
    then show "\<exists>a b. c # cs = a @ sub @ b"
    proof cases
      case 1
      then obtain b where "c # cs = sub @ b" by (auto simp: str_startswith_iff)
      then have "c # cs = [] @ sub @ b" by simp
      then show ?thesis by blast
    next
      case 2
      with Cons obtain a b where "cs = a @ sub @ b" by blast
      then have "c # cs = (c # a) @ sub @ b" by simp
      then show ?thesis by blast
    qed
  next
    assume "\<exists>a b. c # cs = a @ sub @ b"
    then obtain a b where ab: "c # cs = a @ sub @ b" by blast
    show "str_contains sub (c # cs)"
    proof (cases a)
      case Nil
      with ab have "str_startswith (c # cs) sub" by (auto simp: str_startswith_iff)
      then show ?thesis by simp
    next
      case (Cons d a')
      with ab have "cs = a' @ sub @ b" by simp
      then have "str_contains sub cs" using Cons.IH by blast
      then show ?thesis by simp
    qed
  qed
qed


lemma occurrence_past_foreign:
  assumes "\<forall>x\<in>set l. x \<notin> set sub" and "sub \<noteq> []" and "l @ r = a @ sub @ b"
  shows "\<exists>a'. r = a' @ sub @ b"
  using assms
proof (induction l arbitrary: a)
  case Nil
  then show ?case by auto
next
  case (Cons x l)
  show ?case
  proof (cases a)
    case Nil
    with Cons.prems(3) have "x # l @ r = sub @ b" by simp
    with Cons.prems(2) have "x = hd sub" by (cases sub) auto
    with Cons.prems(2) have "x \<in> set sub" by simp
    with Cons.prems(1) show ?thesis by simp
  next
    case (Cons y a')
    with Cons.prems(3) have "l @ r = a' @ sub @ b" by simp
    moreover from Cons.prems(1) have "\<forall>x\<in>set l. x \<notin> set sub" by simp
    ultimately show ?thesis using Cons.prems(2) by (rule Cons.IH [rotated 2])
  qed
qed

lemma str_contains_between_foreign:
  assumes l: "\<forall>x\<in>set l. x \<notin> set sub" and t: "\<forall>x\<in>set t. x \<notin> set sub"
    and sub: "sub \<noteq> []"
  shows "str_contains sub (l @ c @ t) \<longleftrightarrow> str_contains sub c"
proof
  assume "str_contains sub (l @ c @ t)"
  then obtain a b where "l @ (c @ t) = a @ sub @ b"
    by (auto simp: str_contains_iff)
  from occurrence_past_foreign [OF l sub this] obtain a' where a': "c @ t = a' @ sub @ b"
    by blast
  then have "rev t @ rev c = rev b @ rev sub @ rev a'"
    by (metis append.assoc rev_append)
  moreover from t have "\<forall>x\<in>set (rev t). x \<notin> set (rev sub)" by simp
  moreover from sub have "rev sub \<noteq> []" by simp
  ultimately obtain b' where "rev c = b' @ rev sub @ rev a'"
    using occurrence_past_foreign [of "rev t" "rev sub" "rev c" "rev b" "rev a'"] by blast
  then have "rev (rev c) = rev (b' @ rev sub @ rev a')" by (rule arg_cong)
  then have "c = a' @ sub @ rev b'" by simp
  then show "str_contains sub c"
    unfolding str_contains_iff by blast
next
  assume "str_contains sub c"
  then obtain a b where "c = a @ sub @ b" by (auto simp: str_contains_iff)
  then have "l @ c @ t = (l @ a) @ sub @ (b @ t)" by simp
  then show "str_contains sub (l @ c @ t)"
    unfolding str_contains_iff by blast
qed

lemma space_bytes_foreign:
  "list_all (list_all (\<lambda>b. char_upper b \<notin> set ''AROUND('')) whitespace_chars"
  by code_simp

lemma spaces_foreign:
  assumes "list_all is_space cs"
  shows "\<forall>x\<in>set (str_upper (concat cs)). x \<notin> set ''AROUND(''"
proof -
  have "\<forall>ch\<in>set cs. \<forall>b\<in>set ch. char_upper b \<notin> set ''AROUND(''"
    using assms space_bytes_foreign unfolding is_space_def list_all_iff by blast
  then show ?thesis
    unfolding str_upper_def by auto
qed

lemma str_strip_sandwich:
  "\<exists>l t. list_all is_space l \<and> list_all is_space t
         \<and> s = concat l @ str_strip s @ concat t"
proof -
  let ?cs = "str_chars s"
  let ?l = "takeWhile is_space ?cs"
  let ?t = "rev (takeWhile is_space (rev (dropWhile is_space ?cs)))"
  have "?cs = ?l @ dropWhile is_space ?cs" by simp
  also have "dropWhile is_space ?cs = strip_chars ?cs @ ?t"
    by (rule strip_chars_decompose)
  finally have "concat ?cs = concat (?l @ strip_chars ?cs @ ?t)"
    by (rule arg_cong)
  then have "s = concat ?l @ str_strip s @ concat ?t"
    by (simp add: concat_str_chars str_strip_def)
  moreover have "list_all is_space ?l"
    by (auto simp: list_all_iff dest: set_takeWhileD)
  moreover have "list_all is_space ?t"
    by (auto simp: list_all_iff dest: set_takeWhileD)
  ultimately show ?thesis by blast
qed

lemma contains_around_strip:
  "str_contains ''AROUND('' (str_upper (str_strip s)) = str_contains ''AROUND('' (str_upper s)"
proof -
  from str_strip_sandwich [of s] obtain l t
    where l: "list_all is_space l" and t: "list_all is_space t"
      and s: "s = concat l @ str_strip s @ concat t"
    by blast
  have "str_upper s = str_upper (concat l) @ str_upper (str_strip s) @ str_upper (concat t)"
    by (subst s) (simp add: str_upper_def)
  moreover have "str_contains ''AROUND(''
                   (str_upper (concat l) @ str_upper (str_strip s) @ str_upper (concat t))
                 \<longleftrightarrow> str_contains ''AROUND('' (str_upper (str_strip s))"
    using spaces_foreign [OF l] spaces_foreign [OF t]
    by (rule str_contains_between_foreign) simp
  ultimately show ?thesis by simp
qed

section \<open>Properties of quote_plus\<close>








section \<open>Properties of build_search_url\<close>

lemma build_query_around:
  "build_query ''around(X):'' search_term extra =
     (let t = str_strip search_term
      in if str_contains ''AROUND('' (str_upper t) then t
         else if 2 \<le> length (str_split_ws t)
              then hd (str_split_ws t) @ '' AROUND(5) '' @ str_join '' '' (tl (str_split_ws t))
              else t @ '' AROUND(5) related'')"
  by (simp add: build_query_def Let_def)

lemma build_query_colon:
  assumes "str_endswith operator '':''"
    and "operator \<notin> {''before:'', ''after:'', ''daterange:'', ''around(X):''}"
  shows "build_query operator search_term extra =
     (let t = str_strip search_term
      in if operator \<in> {''site:'', ''related:'', ''cache:'', ''link:'', ''info:''}
         then operator @ t
         else if CHR '' '' \<in> set t \<and> \<not> (str_startswith t [dquote] \<and> str_endswith t [dquote])
              then operator @ [dquote] @ t @ [dquote]
              else operator @ t)"
  using assms by (simp add: build_query_def Let_def)

lemma build_query_daterange:
  "build_query ''daterange:'' search_term extra =
     (if has_date extra
      then ''after:'' @ str_slice_to 4 (get_date extra) @ ''-01-01 before:''
           @ str_slice_to 4 (get_date extra) @ ''-12-31 '' @ str_strip search_term
      else ''after:2020-01-01 before:2021-12-31 '' @ str_strip search_term)"
  by (simp add: build_query_def Let_def)

text \<open>
  C1, as amended. For the operator token \<open>around(X):\<close>: a term that contains \<open>AROUND(\<close>
  in any letter case gives the term stripped of leading and trailing white space as the
  query; otherwise a term of at least two words separated by white space gives the first
  word, \<open>AROUND(5)\<close>, and the other words joined by single spaces; otherwise a term of one
  word gives that word, which is the term without the white space around it, followed by
  \<open>AROUND(5) related\<close>.
\<close>

theorem around_rule:
  "(str_contains ''AROUND('' (str_upper search_term) \<longrightarrow>
      build_search_url ''around(X):'' search_term extra = search_url (str_strip search_term))
   \<and> (\<not> str_contains ''AROUND('' (str_upper search_term)
        \<and> 2 \<le> length (str_split_ws search_term) \<longrightarrow>
      build_search_url ''around(X):'' search_term extra =
        search_url (hd (str_split_ws search_term) @ '' AROUND(5) ''
                    @ str_join '' '' (tl (str_split_ws search_term))))
   \<and> (\<not> str_contains ''AROUND('' (str_upper search_term)
        \<and> str_split_ws search_term = [w] \<longrightarrow>
      build_search_url ''around(X):'' search_term extra = search_url (w @ '' AROUND(5) related'')
      \<and> str_strip search_term = w)"
proof (intro conjI impI)
  assume "str_contains ''AROUND('' (str_upper search_term)"
  then show "build_search_url ''around(X):'' search_term extra
               = search_url (str_strip search_term)"
    by (simp add: build_search_url_def build_query_around contains_around_strip)
next
  assume "\<not> str_contains ''AROUND('' (str_upper search_term)
          \<and> 2 \<le> length (str_split_ws search_term)"
  then show "build_search_url ''around(X):'' search_term extra =
        search_url (hd (str_split_ws search_term) @ '' AROUND(5) ''
                    @ str_join '' '' (tl (str_split_ws search_term)))"
    by (simp add: build_search_url_def build_query_around contains_around_strip
                  str_split_ws_strip)
next
  assume a: "\<not> str_contains ''AROUND('' (str_upper search_term)
             \<and> str_split_ws search_term = [w]"
  then show sw: "str_strip search_term = w"
    by (simp add: str_split_ws_single)
  have "build_query ''around(X):'' search_term extra
          = str_strip search_term @ '' AROUND(5) related''"
    using a by (simp add: build_query_around contains_around_strip str_split_ws_strip)
  then show "build_search_url ''around(X):'' search_term extra
               = search_url (w @ '' AROUND(5) related'')"
    unfolding build_search_url_def sw by (rule arg_cong)
qed

theorem around_rule_witness:
  "str_contains ''AROUND('' (str_upper '' seo around(3) tips '')
   \<and> build_search_url ''around(X):'' '' seo around(3) tips '' None
       = search_url ''seo around(3) tips''
   \<and> \<not> str_contains ''AROUND('' (str_upper ''digital  marketing now '')
   \<and> 2 \<le> length (str_split_ws ''digital  marketing now '')
   \<and> build_search_url ''around(X):'' ''digital  marketing now '' None
       = search_url ''digital AROUND(5) marketing now''
   \<and> \<not> str_contains ''AROUND('' (str_upper (''a'' @ [CHR 0xE3, CHR 0x80, CHR 0x80] @ ''b''))
   \<and> 2 \<le> length (str_split_ws (''a'' @ [CHR 0xE3, CHR 0x80, CHR 0x80] @ ''b''))
   \<and> build_search_url ''around(X):'' (''a'' @ [CHR 0xE3, CHR 0x80, CHR 0x80] @ ''b'') None
       = search_url ''a AROUND(5) b''
   \<and> \<not> str_contains ''AROUND('' (str_upper ('' seo'' @ [CHR 0xC2, CHR 0xA0]))
   \<and> str_split_ws ('' seo'' @ [CHR 0xC2, CHR 0xA0]) = [''seo'']
   \<and> build_search_url ''around(X):'' ('' seo'' @ [CHR 0xC2, CHR 0xA0]) None
       = search_url ''seo AROUND(5) related''"
proof -
  have a1: "str_contains ''AROUND('' (str_upper '' seo around(3) tips '')"
    by code_simp
  have a2: "str_strip '' seo around(3) tips '' = ''seo around(3) tips''"
    by code_simp
  have b1: "\<not> str_contains ''AROUND('' (str_upper ''digital  marketing now '')"
    by code_simp
  have b2: "2 \<le> length (str_split_ws ''digital  marketing now '')"
    by code_simp
  have b3: "hd (str_split_ws ''digital  marketing now '') @ '' AROUND(5) ''
            @ str_join '' '' (tl (str_split_ws ''digital  marketing now ''))
            = ''digital AROUND(5) marketing now''"
    by code_simp
  have u1: "\<not> str_contains ''AROUND('' (str_upper (''a'' @ [CHR 0xE3, CHR 0x80, CHR 0x80] @ ''b''))"
    by code_simp
  have u2: "2 \<le> length (str_split_ws (''a'' @ [CHR 0xE3, CHR 0x80, CHR 0x80] @ ''b''))"
    by code_simp
  have u3: "hd (str_split_ws (''a'' @ [CHR 0xE3, CHR 0x80, CHR 0x80] @ ''b'')) @ '' AROUND(5) ''
            @ str_join '' '' (tl (str_split_ws (''a'' @ [CHR 0xE3, CHR 0x80, CHR 0x80] @ ''b'')))
            = ''a AROUND(5) b''"
    by code_simp
  have c1: "\<not> str_contains ''AROUND('' (str_upper ('' seo'' @ [CHR 0xC2, CHR 0xA0]))"
    by code_simp
  have c2: "str_split_ws ('' seo'' @ [CHR 0xC2, CHR 0xA0]) = [''seo'']"
    by code_simp
  have c3: "''seo'' @ '' AROUND(5) related'' = ''seo AROUND(5) related''"
    by simp
  note kept = around_rule [THEN conjunct1, THEN mp, OF a1, unfolded a2]
  note words = around_rule [THEN conjunct2, THEN conjunct1, THEN mp, OF conjI [OF b1 b2],
                            unfolded b3]
  note wide = around_rule [THEN conjunct2, THEN conjunct1, THEN mp, OF conjI [OF u1 u2],
                           unfolded u3]
  note word = around_rule [THEN conjunct2, THEN conjunct2, THEN mp, OF conjI [OF c1 c2],
                           THEN conjunct1, unfolded c3]
  show ?thesis
    by (intro conjI) (rule a1 kept b1 b2 words u1 u2 wide c1 c2 word)+
qed

text \<open>
  C1 as stated fails twice. The upper-case token \<open>AROUND(X):\<close> of the catalogue does not
  take the AROUND branch: it is formatted as a keyword operator, the term in double
  quotes after the token. And a term of one word with white space around it is
  trimmed, so the query is not the term as given followed by \<open>AROUND(5) related\<close>.
\<close>

theorem around_rule_counterexample:
  "build_search_url ''AROUND(X):'' ''digital marketing'' None
     \<noteq> search_url ''digital AROUND(5) marketing''
   \<and> build_search_url ''AROUND(X):'' ''digital marketing'' None
     = search_url (''AROUND(X):'' @ [CHR 0x22] @ ''digital marketing'' @ [CHR 0x22])
   \<and> build_search_url ''around(X):'' '' seo '' None
     \<noteq> search_url ('' seo '' @ '' AROUND(5) related'')"
  by code_simp

lemma three_way_split:
  "q = (if u then a else if s \<and> \<not> w then b else c) \<Longrightarrow>
   (u \<longrightarrow> f q = f a) \<and> (\<not> u \<and> s \<and> \<not> w \<longrightarrow> f q = f b) \<and> (\<not> u \<and> \<not> (s \<and> \<not> w) \<longrightarrow> f q = f c)"
  by auto

text \<open>
  C2, as amended. For an operator token that ends in a colon and is not taken by an earlier
  rule (it is not \<open>before:\<close>, \<open>after:\<close> or \<open>daterange:\<close>, and it is not \<open>around(X):\<close> in
  any letter case), and with \<open>t\<close> the term stripped of leading and trailing white space:
  an operator of the set \<open>site:\<close>, \<open>related:\<close>, \<open>cache:\<close>, \<open>link:\<close>, \<open>info:\<close> gives the
  query \<open>operator t\<close> without quotes; any other operator gives \<open>operator "t"\<close> exactly when
  \<open>t\<close> contains a space and does not both start and end with a double quote, and
  \<open>operator t\<close> otherwise.
\<close>

theorem colon_rule_on_trimmed_term:
  assumes "str_endswith operator '':''"
    and "operator \<notin> {''before:'', ''after:'', ''daterange:''}"
    and "str_upper operator \<noteq> ''AROUND(X):''"
  shows "(operator \<in> {''site:'', ''related:'', ''cache:'', ''link:'', ''info:''} \<longrightarrow>
            build_search_url operator search_term extra
              = search_url (operator @ str_strip search_term))
         \<and> (\<not> operator \<in> {''site:'', ''related:'', ''cache:'', ''link:'', ''info:''}
             \<and> CHR '' '' \<in> set (str_strip search_term)
             \<and> \<not> (str_startswith (str_strip search_term) [CHR 0x22]
                    \<and> str_endswith (str_strip search_term) [CHR 0x22]) \<longrightarrow>
            build_search_url operator search_term extra
              = search_url (operator @ [CHR 0x22] @ str_strip search_term @ [CHR 0x22]))
         \<and> (\<not> operator \<in> {''site:'', ''related:'', ''cache:'', ''link:'', ''info:''}
             \<and> \<not> (CHR '' '' \<in> set (str_strip search_term)
                    \<and> \<not> (str_startswith (str_strip search_term) [CHR 0x22]
                           \<and> str_endswith (str_strip search_term) [CHR 0x22])) \<longrightarrow>
            build_search_url operator search_term extra
              = search_url (operator @ str_strip search_term))"
proof -
  from assms(3) have "operator \<noteq> ''around(X):''"
    using str_upper_around by blast
  with assms(2)
  have "operator \<notin> {''before:'', ''after:'', ''daterange:'', ''around(X):''}"
    by blast
  from build_query_colon [OF assms(1) this, of search_term extra]
  have "build_query operator search_term extra =
     (if operator \<in> {''site:'', ''related:'', ''cache:'', ''link:'', ''info:''}
      then operator @ str_strip search_term
      else if CHR '' '' \<in> set (str_strip search_term)
              \<and> \<not> (str_startswith (str_strip search_term) [CHR 0x22]
                     \<and> str_endswith (str_strip search_term) [CHR 0x22])
           then operator @ [CHR 0x22] @ str_strip search_term @ [CHR 0x22]
           else operator @ str_strip search_term)"
    unfolding Let_def dquote_def .
  then show ?thesis
    unfolding build_search_url_def by (rule three_way_split)
qed

theorem colon_rule_on_trimmed_term_witness:
  "str_endswith ''site:'' '':''
   \<and> ''site:'' \<notin> {''before:'', ''after:'', ''daterange:''}
   \<and> str_upper ''site:'' \<noteq> ''AROUND(X):''
   \<and> ''site:'' \<in> {''site:'', ''related:'', ''cache:'', ''link:'', ''info:''}
   \<and> build_search_url ''site:'' '' my site.com '' None = search_url ''site:my site.com''
   \<and> str_endswith ''intitle:'' '':''
   \<and> ''intitle:'' \<notin> {''before:'', ''after:'', ''daterange:''}
   \<and> str_upper ''intitle:'' \<noteq> ''AROUND(X):''
   \<and> ''intitle:'' \<notin> {''site:'', ''related:'', ''cache:'', ''link:'', ''info:''}
   \<and> CHR '' '' \<in> set (str_strip ''data science '')
   \<and> \<not> (str_startswith (str_strip ''data science '') [CHR 0x22]
          \<and> str_endswith (str_strip ''data science '') [CHR 0x22])
   \<and> build_search_url ''intitle:'' ''data science '' None
       = search_url (''intitle:'' @ [CHR 0x22] @ ''data science'' @ [CHR 0x22])
   \<and> \<not> (CHR '' '' \<in> set (str_strip ([CHR 0xC2, CHR 0xA0] @ ''python''))
          \<and> \<not> (str_startswith (str_strip ([CHR 0xC2, CHR 0xA0] @ ''python'')) [CHR 0x22]
                 \<and> str_endswith (str_strip ([CHR 0xC2, CHR 0xA0] @ ''python'')) [CHR 0x22]))
   \<and> build_search_url ''intitle:'' ([CHR 0xC2, CHR 0xA0] @ ''python'') None
       = search_url ''intitle:python''"
proof -
  have s1: "str_endswith ''site:'' '':''" by code_simp
  have s2: "''site:'' \<notin> {''before:'', ''after:'', ''daterange:''}" by simp
  have s3: "str_upper ''site:'' \<noteq> ''AROUND(X):''" by code_simp
  have s4: "''site:'' \<in> {''site:'', ''related:'', ''cache:'', ''link:'', ''info:''}" by simp
  have s5: "''site:'' @ str_strip '' my site.com '' = ''site:my site.com''" by code_simp
  have i1: "str_endswith ''intitle:'' '':''" by code_simp
  have i2: "''intitle:'' \<notin> {''before:'', ''after:'', ''daterange:''}" by simp
  have i3: "str_upper ''intitle:'' \<noteq> ''AROUND(X):''" by code_simp
  have i4: "''intitle:'' \<notin> {''site:'', ''related:'', ''cache:'', ''link:'', ''info:''}" by simp
  have d2: "CHR '' '' \<in> set (str_strip ''data science '')" by code_simp
  have d3: "\<not> (str_startswith (str_strip ''data science '') [CHR 0x22]
               \<and> str_endswith (str_strip ''data science '') [CHR 0x22])" by code_simp
  have d4: "''intitle:'' @ [CHR 0x22] @ str_strip ''data science '' @ [CHR 0x22]
              = ''intitle:'' @ [CHR 0x22] @ ''data science'' @ [CHR 0x22]" by code_simp
  have p2: "\<not> (CHR '' '' \<in> set (str_strip ([CHR 0xC2, CHR 0xA0] @ ''python''))
               \<and> \<not> (str_startswith (str_strip ([CHR 0xC2, CHR 0xA0] @ ''python'')) [CHR 0x22]
                      \<and> str_endswith (str_strip ([CHR 0xC2, CHR 0xA0] @ ''python'')) [CHR 0x22]))" by code_simp
  have p3: "''intitle:'' @ str_strip ([CHR 0xC2, CHR 0xA0] @ ''python'') = ''intitle:python''" by code_simp
  note site = colon_rule_on_trimmed_term [OF s1 s2 s3, of "'' my site.com ''" None]
  note quoted = colon_rule_on_trimmed_term [OF i1 i2 i3, of "''data science ''" None]
  note plain = colon_rule_on_trimmed_term [OF i1 i2 i3, of "[CHR 0xC2, CHR 0xA0] @ ''python''" None]
  have a: "build_search_url ''site:'' '' my site.com '' None = search_url ''site:my site.com''"
    using site [THEN conjunct1, THEN mp, OF s4] unfolding s5 .
  have b: "build_search_url ''intitle:'' ''data science '' None
             = search_url (''intitle:'' @ [CHR 0x22] @ ''data science'' @ [CHR 0x22])"
    using quoted [THEN conjunct2, THEN conjunct1, THEN mp, OF conjI [OF i4 conjI [OF d2 d3]]]
    unfolding d4 .
  have c: "build_search_url ''intitle:'' ([CHR 0xC2, CHR 0xA0] @ ''python'') None
       = search_url ''intitle:python''"
    using plain [THEN conjunct2, THEN conjunct2, THEN mp, OF conjI [OF i4 p2]]
    unfolding p3 .
  show ?thesis
    by (intro conjI) (rule s1 s2 s3 s4 a i1 i2 i3 i4 d2 d3 b p2 c)+
qed

text \<open>
  C2 as stated fails for a term with white space at an end: \<open>data science\<close> followed by a
  space is quoted without that space, and \<open>python\<close> after a space, which contains a space
  and is not quoted, is emitted without quotes.
\<close>

theorem colon_rule_counterexample:
  "build_search_url ''intitle:'' ''data science '' None
     \<noteq> search_url (''intitle:'' @ [CHR 0x22] @ ''data science '' @ [CHR 0x22])
   \<and> CHR '' '' \<in> set '' python''
   \<and> \<not> (str_startswith '' python'' [CHR 0x22] \<and> str_endswith '' python'' [CHR 0x22])
   \<and> build_search_url ''intitle:'' '' python'' None
     \<noteq> search_url (''intitle:'' @ [CHR 0x22] @ '' python'' @ [CHR 0x22])
   \<and> build_search_url ''site:'' '' example.com'' None
     \<noteq> search_url (''site:'' @ '' example.com'')"
  by code_simp

text \<open>
  C3, as amended. For the operator \<open>daterange:\<close>, and with \<open>t\<close> the term stripped of
  leading and trailing white space: when the extra mapping has a \<open>date\<close>, the query is
  \<open>after:Y-01-01 before:Y-12-31 t\<close> with \<open>Y\<close> the first four characters of the date;
  when there is no extra mapping or it has no \<open>date\<close>, the query is
  \<open>after:2020-01-01 before:2021-12-31 t\<close>. The term \<open>AI\<close> with the date \<open>2021-06-01\<close>
  gives \<open>after:2021-01-01 before:2021-12-31 AI\<close>.
\<close>

theorem daterange_rule_on_trimmed_term:
  "(extra = Some d \<and> map_of d ''date'' = Some date \<longrightarrow>
      build_search_url ''daterange:'' search_term extra
        = search_url (''after:'' @ str_slice_to 4 date @ ''-01-01 before:''
                      @ str_slice_to 4 date
                      @ ''-12-31 '' @ str_strip search_term))
   \<and> (extra = None \<or> (extra = Some d \<and> map_of d ''date'' = None) \<longrightarrow>
      build_search_url ''daterange:'' search_term extra
        = search_url (''after:2020-01-01 before:2021-12-31 '' @ str_strip search_term))
   \<and> build_search_url ''daterange:'' ''AI'' (Some [(''date'', ''2021-06-01'')])
        = search_url ''after:2021-01-01 before:2021-12-31 AI''"
proof (intro conjI impI)
  assume "extra = Some d \<and> map_of d ''date'' = Some date"
  then have "has_date extra" and "get_date extra = date"
    by (auto simp: has_date_def get_date_def)
  then show "build_search_url ''daterange:'' search_term extra
        = search_url (''after:'' @ str_slice_to 4 date @ ''-01-01 before:''
                      @ str_slice_to 4 date
                      @ ''-12-31 '' @ str_strip search_term)"
    unfolding build_search_url_def build_query_daterange by simp
next
  assume "extra = None \<or> (extra = Some d \<and> map_of d ''date'' = None)"
  then have "\<not> has_date extra"
    by (auto simp: has_date_def)
  then show "build_search_url ''daterange:'' search_term extra
        = search_url (''after:2020-01-01 before:2021-12-31 '' @ str_strip search_term)"
    unfolding build_search_url_def build_query_daterange by simp
next
  show "build_search_url ''daterange:'' ''AI'' (Some [(''date'', ''2021-06-01'')])
        = search_url ''after:2021-01-01 before:2021-12-31 AI''"
    by code_simp
qed

theorem daterange_rule_on_trimmed_term_witness:
  "Some [(''date'', ''1999-12-31'')] = Some [(''date'', ''1999-12-31'')]
   \<and> map_of [(''date'', ''1999-12-31'')] ''date'' = Some ''1999-12-31''
   \<and> build_search_url ''daterange:'' ([CHR 0xC2, CHR 0xA0] @ ''AI '')
         (Some [(''date'', ''1999-12-31'')])
       = search_url ''after:1999-01-01 before:1999-12-31 AI''
   \<and> ((None :: params option) = None
        \<or> ((None :: params option) = Some [] \<and> map_of ([] :: params) ''date'' = None))
   \<and> build_search_url ''daterange:'' '' AI '' None
       = search_url ''after:2020-01-01 before:2021-12-31 AI''"
proof -
  have e: "Some [(''date'', ''1999-12-31'')] = Some [(''date'', ''1999-12-31'')]"
    by (rule refl)
  have m: "map_of [(''date'', ''1999-12-31'')] ''date'' = Some ''1999-12-31''"
    by simp
  have q: "''after:'' @ str_slice_to 4 ''1999-12-31'' @ ''-01-01 before:''
             @ str_slice_to 4 ''1999-12-31'' @ ''-12-31 ''
             @ str_strip ([CHR 0xC2, CHR 0xA0] @ ''AI '')
           = ''after:1999-01-01 before:1999-12-31 AI''"
    by code_simp
  have n: "(None :: params option) = None
           \<or> ((None :: params option) = Some [] \<and> map_of ([] :: params) ''date'' = None)"
    by (rule disjI1) (rule refl)
  have r: "''after:2020-01-01 before:2021-12-31 '' @ str_strip '' AI ''
             = ''after:2020-01-01 before:2021-12-31 AI''"
    by code_simp
  note dated = daterange_rule_on_trimmed_term
         [of "Some [(''date'', ''1999-12-31'')]" "[(''date'', ''1999-12-31'')]"
             "''1999-12-31''" "[CHR 0xC2, CHR 0xA0] @ ''AI ''"]
  note undated = daterange_rule_on_trimmed_term [of None "[]" "[]" "'' AI ''"]
  have a: "build_search_url ''daterange:'' ([CHR 0xC2, CHR 0xA0] @ ''AI '')
             (Some [(''date'', ''1999-12-31'')])
             = search_url ''after:1999-01-01 before:1999-12-31 AI''"
    using dated [THEN conjunct1, THEN mp, OF conjI [OF e m]] unfolding q .
  have b: "build_search_url ''daterange:'' '' AI '' None
             = search_url ''after:2020-01-01 before:2021-12-31 AI''"
    using undated [THEN conjunct2, THEN conjunct1, THEN mp, OF n] unfolding r .
  show ?thesis
    by (intro conjI) (rule e m a n b)+
qed

text \<open>
  C3 as stated fails for a term with white space at an end: the query ends with the
  trimmed term, not with the term as given.
\<close>

theorem daterange_rule_counterexample:
  "build_search_url ''daterange:'' '' AI'' (Some [(''date'', ''2021-06-01'')])
     \<noteq> search_url (''after:2021-01-01 before:2021-12-31 '' @ '' AI'')"
  by code_simp


text \<open>
  C9. The result does not change when the term is replaced by the term stripped of
  leading and trailing white space.
\<close>

theorem url_invariant_under_trimming:
  "build_search_url operator search_term extra
     = build_search_url operator (str_strip search_term) extra"
  by (simp add: build_search_url_def build_query_def str_strip_idem)

theorem url_invariant_under_trimming_witness:
  "build_search_url ''site:'' ([CHR 0xC2, CHR 0xA0] @ ''example.com '') None
     = build_search_url ''site:'' ''example.com'' None
   \<and> build_search_url ''site:'' ''example.com'' None
     = ''https://www.google.com/search?q=site%3Aexample.com&num=100''"
proof -
  have s: "str_strip ([CHR 0xC2, CHR 0xA0] @ ''example.com '') = ''example.com''"
    by code_simp
  have u: "build_search_url ''site:'' ''example.com'' None
             = ''https://www.google.com/search?q=site%3Aexample.com&num=100''"
    by code_simp
  from url_invariant_under_trimming
         [of "''site:''" "[CHR 0xC2, CHR 0xA0] @ ''example.com ''" None]
  have "build_search_url ''site:'' ([CHR 0xC2, CHR 0xA0] @ ''example.com '') None
          = build_search_url ''site:'' ''example.com'' None"
    unfolding s .
  with u show ?thesis by (intro conjI)
qed

section \<open>Properties of validate_batch_input\<close>

lemma str_split_char_nonempty: "str_split_char sep s \<noteq> []"
  by (induction s) (auto split: list.splits)

lemma str_split_char_prepend:
  "sep \<notin> set g \<Longrightarrow>
     str_split_char sep (g @ rest)
       = (g @ hd (str_split_char sep rest)) # tl (str_split_char sep rest)"
proof (induction g)
  case Nil
  show ?case using str_split_char_nonempty [of sep rest] by simp
next
  case (Cons c g)
  then show ?case by (auto split: list.splits)
qed

lemma space_is_newline_or_without:
  "list_all (\<lambda>ch. ch = [newline] \<or> newline \<notin> set ch) whitespace_chars"
  by code_simp

lemma lines_of_spaces:
  assumes "list_all is_space cs" and "p \<in> set (str_split_char newline (concat cs))"
  shows "\<exists>ps. list_all is_space ps \<and> p = concat ps"
  using assms
proof (induction cs arbitrary: p)
  case Nil
  then have "list_all is_space [] \<and> p = concat []" by simp
  then show ?case by (rule exI)
next
  case (Cons ch cs)
  from Cons.prems(1) have ch: "is_space ch" and cs: "list_all is_space cs" by simp_all
  from ch have "ch = [newline] \<or> newline \<notin> set ch"
    using space_is_newline_or_without by (simp add: is_space_def list_all_iff)
  then show ?case
  proof
    assume "ch = [newline]"
    with Cons.prems(2) have "p = [] \<or> p \<in> set (str_split_char newline (concat cs))"
      by simp
    then show ?thesis
    proof
      assume "p = []"
      then have "list_all is_space [] \<and> p = concat []" by simp
      then show ?thesis by (rule exI)
    next
      assume "p \<in> set (str_split_char newline (concat cs))"
      with cs show ?thesis by (rule Cons.IH)
    qed
  next
    assume "newline \<notin> set ch"
    then have split: "str_split_char newline (concat (ch # cs))
          = (ch @ hd (str_split_char newline (concat cs)))
            # tl (str_split_char newline (concat cs))"
      by (simp add: str_split_char_prepend)
    have ne: "str_split_char newline (concat cs) \<noteq> []"
      by (rule str_split_char_nonempty)
    from Cons.prems(2) split
    have "p = ch @ hd (str_split_char newline (concat cs))
          \<or> p \<in> set (tl (str_split_char newline (concat cs)))"
      by simp
    then show ?thesis
    proof
      assume p: "p = ch @ hd (str_split_char newline (concat cs))"
      from ne have "hd (str_split_char newline (concat cs))
                      \<in> set (str_split_char newline (concat cs))"
        by simp
      with cs obtain ps where ps: "list_all is_space ps"
          and hd: "hd (str_split_char newline (concat cs)) = concat ps"
        using Cons.IH by blast
      from ch ps have "list_all is_space (ch # ps)" by simp
      moreover from p hd have "p = concat (ch # ps)" by simp
      ultimately show ?thesis by blast
    next
      assume "p \<in> set (tl (str_split_char newline (concat cs)))"
      with ne have "p \<in> set (str_split_char newline (concat cs))"
        by (meson list.set_sel(2))
      with cs show ?thesis by (rule Cons.IH)
    qed
  qed
qed

lemma str_strip_spaces:
  assumes "list_all is_space cs"
  shows "str_strip (concat cs) = []"
proof -
  from assms have "list_all headed cs"
    by (simp add: list_all_iff is_space_headed)
  then have "str_chars (concat cs) = cs"
    by (intro str_chars_concat headed_is_chain)
  with assms show ?thesis
    by (simp add: str_strip_empty_iff)
qed

lemma blank_text_blank_lines:
  assumes "str_strip s = []" and "line \<in> set (str_split_char newline s)"
  shows "str_strip line = []"
proof -
  from assms(1) have "list_all is_space (str_chars s)"
    by (simp add: str_strip_empty_iff)
  moreover from assms(2) have "line \<in> set (str_split_char newline (concat (str_chars s)))"
    by (simp add: concat_str_chars)
  ultimately obtain ps where "list_all is_space ps" and "line = concat ps"
    using lines_of_spaces by blast
  then show ?thesis by (simp add: str_strip_spaces)
qed

lemma length_batch_lines:
  "length (batch_lines s)
     = length (filter (\<lambda>line. str_strip line \<noteq> []) (str_split_char newline s))"
  by (simp add: batch_lines_def)

lemma batch_lines_not_blank:
  assumes "batch_lines s \<noteq> []"
  shows "str_strip s \<noteq> []"
proof
  assume blank: "str_strip s = []"
  from assms obtain line where "line \<in> set (str_split_char newline s)"
    and "str_strip line \<noteq> []"
    unfolding batch_lines_def by (auto simp: filter_empty_conv)
  with blank show False
    using blank_text_blank_lines by blast
qed

lemma str_strip_nil: "str_strip [] = []"
  by (simp add: str_strip_def strip_chars_def)

lemma clean_lines_filter:
  "clean_lines lines acc = acc @ filter (\<lambda>q. q \<noteq> []) (map clean_search_term lines)"
  by (induction lines arbitrary: acc) (simp_all add: Let_def)

lemma validate_batch_input_blank:
  "str_strip s = [] \<Longrightarrow> validate_batch_input s = (False, [], ''Batch input cannot be empty'')"
  by (simp add: validate_batch_input_def)

lemma validate_batch_input_too_many:
  assumes "50 < length (batch_lines s)"
  shows "validate_batch_input s = (False, [], ''Maximum 50 queries allowed in batch mode'')"
proof -
  from assms have ne: "batch_lines s \<noteq> []" by auto
  then have "str_strip s \<noteq> []" by (rule batch_lines_not_blank)
  moreover then have "s \<noteq> []" using str_strip_nil by auto
  ultimately show ?thesis
    using assms ne by (simp add: validate_batch_input_def Let_def)
qed

lemma validate_batch_input_within_cap:
  assumes "batch_lines s \<noteq> []" and "length (batch_lines s) \<le> 50"
  shows "validate_batch_input s =
           (let cleaned = filter (\<lambda>q. q \<noteq> []) (map clean_search_term (batch_lines s))
            in if cleaned = [] then (False, [], ''No valid queries after cleaning'')
               else (True, cleaned, []))"
proof -
  from assms(1) have "str_strip s \<noteq> []" by (rule batch_lines_not_blank)
  moreover then have "s \<noteq> []" using str_strip_nil by auto
  ultimately show ?thesis
    using assms by (simp add: validate_batch_input_def Let_def clean_lines_filter)
qed

lemma validate_batch_input_no_lines:
  assumes "batch_lines s = []"
  shows "fst (validate_batch_input s) = False \<and> fst (snd (validate_batch_input s)) = []
         \<and> snd (snd (validate_batch_input s)) \<noteq> []"
  using assms by (simp add: validate_batch_input_def Let_def)


text \<open>
  C7. The cap is 50 lines that are not empty once trimmed: with 51 or more such lines the
  result is not ok with the message about the maximum of 50; with exactly 50 that message
  is not the result; an input that is empty or only white space is not ok with the message
  that the input cannot be empty. The lines are counted after splitting at line feeds,
  trimming each line and dropping the empty ones.
\<close>

theorem batch_cap_is_fifty:
  "(51 \<le> length (filter (\<lambda>line. str_strip line \<noteq> []) (str_split_char newline batch_input)) \<longrightarrow>
      validate_batch_input batch_input
        = (False, [], ''Maximum 50 queries allowed in batch mode''))
   \<and> (length (filter (\<lambda>line. str_strip line \<noteq> []) (str_split_char newline batch_input)) = 50 \<longrightarrow>
      snd (snd (validate_batch_input batch_input))
        \<noteq> ''Maximum 50 queries allowed in batch mode'')
   \<and> (str_strip batch_input = [] \<longrightarrow>
      validate_batch_input batch_input = (False, [], ''Batch input cannot be empty''))"
proof (intro conjI impI)
  assume "51 \<le> length (filter (\<lambda>line. str_strip line \<noteq> []) (str_split_char newline batch_input))"
  then have "50 < length (batch_lines batch_input)"
    by (simp add: length_batch_lines)
  then show "validate_batch_input batch_input
        = (False, [], ''Maximum 50 queries allowed in batch mode'')"
    by (rule validate_batch_input_too_many)
next
  assume "length (filter (\<lambda>line. str_strip line \<noteq> []) (str_split_char newline batch_input)) = 50"
  then have len: "length (batch_lines batch_input) = 50"
    by (simp add: length_batch_lines)
  then have "batch_lines batch_input \<noteq> []" and "length (batch_lines batch_input) \<le> 50"
    by auto
  then show "snd (snd (validate_batch_input batch_input))
        \<noteq> ''Maximum 50 queries allowed in batch mode''"
    by (simp add: validate_batch_input_within_cap Let_def)
next
  assume "str_strip batch_input = []"
  then show "validate_batch_input batch_input = (False, [], ''Batch input cannot be empty'')"
    by (rule validate_batch_input_blank)
qed

theorem batch_cap_is_fifty_witness:
  "51 \<le> length (filter (\<lambda>line. str_strip line \<noteq> [])
                 (str_split_char newline
                    (''a'' @ [newline] @ ''b'' @ [newline] @ concat (replicate 49 (''c'' @ [newline])))))
   \<and> validate_batch_input
         (''a'' @ [newline] @ ''b'' @ [newline] @ concat (replicate 49 (''c'' @ [newline])))
       = (False, [], ''Maximum 50 queries allowed in batch mode'')
   \<and> length (filter (\<lambda>line. str_strip line \<noteq> [])
                (str_split_char newline
                   (concat (replicate 50 ('' q '' @ [newline])) @ [CHR 0xC2, CHR 0xA0]))) = 50
   \<and> snd (snd (validate_batch_input
                  (concat (replicate 50 ('' q '' @ [newline])) @ [CHR 0xC2, CHR 0xA0])))
       \<noteq> ''Maximum 50 queries allowed in batch mode''
   \<and> str_strip ('' '' @ [newline] @ [CHR 0xC2, CHR 0xA0]) = []
   \<and> validate_batch_input ('' '' @ [newline] @ [CHR 0xC2, CHR 0xA0])
       = (False, [], ''Batch input cannot be empty'')"
proof -
  have a: "51 \<le> length (filter (\<lambda>line. str_strip line \<noteq> [])
                 (str_split_char newline
                    (''a'' @ [newline] @ ''b'' @ [newline] @ concat (replicate 49 (''c'' @ [newline])))))"
    by code_simp
  have b: "length (filter (\<lambda>line. str_strip line \<noteq> [])
                (str_split_char newline
                   (concat (replicate 50 ('' q '' @ [newline])) @ [CHR 0xC2, CHR 0xA0]))) = 50"
    by code_simp
  have c: "str_strip ('' '' @ [newline] @ [CHR 0xC2, CHR 0xA0]) = []"
    by code_simp
  show ?thesis
    by (intro conjI)
       (rule a b c batch_cap_is_fifty [THEN conjunct1, THEN mp, OF a]
             batch_cap_is_fifty [THEN conjunct2, THEN conjunct1, THEN mp, OF b]
             batch_cap_is_fifty [THEN conjunct2, THEN conjunct2, THEN mp, OF c])+
qed

text \<open>
  C10. When the result is not ok, the list of queries is empty and the message is not
  empty. When it is ok, the message is empty and the queries are the cleaned lines that are
  not empty, in the order of the input, between 1 and 50 of them.
\<close>

theorem batch_result_consistent:
  "(\<not> fst (validate_batch_input batch_input) \<longrightarrow>
      fst (snd (validate_batch_input batch_input)) = []
      \<and> snd (snd (validate_batch_input batch_input)) \<noteq> [])
   \<and> (fst (validate_batch_input batch_input) \<longrightarrow>
      snd (snd (validate_batch_input batch_input)) = []
      \<and> 1 \<le> length (fst (snd (validate_batch_input batch_input)))
      \<and> length (fst (snd (validate_batch_input batch_input))) \<le> 50
      \<and> list_all (\<lambda>q. q \<noteq> []) (fst (snd (validate_batch_input batch_input)))
      \<and> fst (snd (validate_batch_input batch_input))
          = filter (\<lambda>q. q \<noteq> [])
              (map clean_search_term
                 (map str_strip
                    (filter (\<lambda>line. str_strip line \<noteq> [])
                       (str_split_char newline batch_input)))))"
proof -
  let ?lines = "batch_lines batch_input"
  let ?cleaned = "filter (\<lambda>q. q \<noteq> []) (map clean_search_term ?lines)"
  have lines: "map str_strip (filter (\<lambda>line. str_strip line \<noteq> [])
                 (str_split_char newline batch_input)) = ?lines"
    by (simp add: batch_lines_def)
  consider (none) "?lines = []" | (many) "50 < length ?lines"
    | (some) "?lines \<noteq> []" "length ?lines \<le> 50"
    by fastforce
  then show ?thesis
  proof cases
    case none
    with validate_batch_input_no_lines [of batch_input] show ?thesis by simp
  next
    case many
    then show ?thesis by (simp add: validate_batch_input_too_many)
  next
    case some
    have "length ?cleaned \<le> length (map clean_search_term ?lines)"
      by (rule length_filter_le)
    also have "\<dots> = length ?lines"
      by (rule length_map)
    also note some(2)
    finally have le: "length ?cleaned \<le> 50" .
    have all: "list_all (\<lambda>q. q \<noteq> []) ?cleaned"
      by (simp add: list_all_iff)
    show ?thesis
    proof (cases "?cleaned = []")
      case True
      with some show ?thesis
        by (simp add: validate_batch_input_within_cap Let_def)
    next
      case False
      then have "1 \<le> length ?cleaned"
        by (cases ?cleaned) simp_all
      with False some le all show ?thesis
        unfolding lines by (simp add: validate_batch_input_within_cap Let_def)
    qed
  qed
qed

theorem batch_result_consistent_witness:
  "\<not> fst (validate_batch_input ([CHR 0x22] @ [newline] @ ''<>''))
   \<and> fst (snd (validate_batch_input ([CHR 0x22] @ [newline] @ ''<>''))) = []
   \<and> snd (snd (validate_batch_input ([CHR 0x22] @ [newline] @ ''<>''))) \<noteq> []
   \<and> fst (validate_batch_input (''  a <b>'' @ [CHR 0xE3, CHR 0x80, CHR 0x80] @ ''c '' @ [newline] @ [CHR 0xC2, CHR 0xA0]
                     @ [newline] @ ''&'' @ [newline] @ ''x''))
   \<and> fst (snd (validate_batch_input
                  (''  a <b>'' @ [CHR 0xE3, CHR 0x80, CHR 0x80] @ ''c '' @ [newline] @ [CHR 0xC2, CHR 0xA0]
                     @ [newline] @ ''&'' @ [newline] @ ''x'')))
       = [''a b c'', ''x'']"
proof -
  have a: "\<not> fst (validate_batch_input ([CHR 0x22] @ [newline] @ ''<>''))"
    by code_simp
  have b: "fst (validate_batch_input
                  (''  a <b>'' @ [CHR 0xE3, CHR 0x80, CHR 0x80] @ ''c '' @ [newline] @ [CHR 0xC2, CHR 0xA0]
                     @ [newline] @ ''&'' @ [newline] @ ''x''))"
    by code_simp
  have c: "filter (\<lambda>q. q \<noteq> [])
              (map clean_search_term
                 (map str_strip
                    (filter (\<lambda>line. str_strip line \<noteq> [])
                       (str_split_char newline
                          (''  a <b>'' @ [CHR 0xE3, CHR 0x80, CHR 0x80] @ ''c '' @ [newline] @ [CHR 0xC2, CHR 0xA0]
                     @ [newline] @ ''&'' @ [newline] @ ''x'')))))
           = [''a b c'', ''x'']"
    by code_simp
  note bad = batch_result_consistent [THEN conjunct1, THEN mp, OF a]
  note good = batch_result_consistent [THEN conjunct2, THEN mp, OF b]
  have d: "fst (snd (validate_batch_input
                  (''  a <b>'' @ [CHR 0xE3, CHR 0x80, CHR 0x80] @ ''c '' @ [newline] @ [CHR 0xC2, CHR 0xA0]
                     @ [newline] @ ''&'' @ [newline] @ ''x'')))
       = [''a b c'', ''x'']"
    using good [THEN conjunct2, THEN conjunct2, THEN conjunct2, THEN conjunct2]
    unfolding c .
  show ?thesis
    by (intro conjI) (rule a b d bad [THEN conjunct1] bad [THEN conjunct2])+
qed

section \<open>Properties of get_operator_info\<close>

lemma py_dict_get_last:
  "py_dict_get entries k =
     (case filter (\<lambda>e. fst e = k) entries of
        [] \<Rightarrow> None
      | e # es \<Rightarrow> Some (snd (last (e # es))))"
proof (induction entries rule: rev_induct)
  case Nil
  show ?case by (simp add: py_dict_get_def)
next
  case (snoc x xs)
  then show ?case
    by (cases x) (auto simp: py_dict_get_def split: list.splits)
qed

lemma py_dict_get_absent:
  "k \<notin> fst ` set entries \<Longrightarrow> py_dict_get entries k = None"
  by (simp add: py_dict_get_def map_of_eq_None_iff)

lemma py_dict_get_present:
  assumes "k \<in> fst ` set entries"
  shows "\<exists>v. py_dict_get entries k = Some v \<and> (k, v) \<in> set entries
             \<and> v = snd (last (filter (\<lambda>e. fst e = k) entries))"
proof -
  from assms have "k \<in> fst ` set (rev entries)" by simp
  then obtain v where v: "map_of (rev entries) k = Some v"
    by (meson map_of_eq_None_iff not_Some_eq)
  then have "(k, v) \<in> set (rev entries)" by (rule map_of_SomeD)
  then have mem: "(k, v) \<in> set entries" by simp
  from v have get: "py_dict_get entries k = Some v" by (simp add: py_dict_get_def)
  with py_dict_get_last [of entries k]
  have "v = snd (last (filter (\<lambda>e. fst e = k) entries))"
    by (simp split: list.splits)
  with get mem show ?thesis by blast
qed

text \<open>
  C8. For a token that is not a key of the catalogue the result is the fallback entry
  (description \<open>Unknown operator\<close>, type \<open>keyword\<close>, placeholder \<open>search term\<close>, no
  examples); for a token that is a key the result is that key's entry of the catalogue,
  the one written last when the key is written twice. The function returns an entry for
  every token.
\<close>

theorem unknown_operator_gets_fallback:
  "(operator_name \<notin> fst ` set SEARCH_OPERATORS \<longrightarrow>
      get_operator_info operator_name
        = \<lparr>description = ''Unknown operator'', type = ''keyword'',
           placeholder = ''search term'', examples = []\<rparr>)
   \<and> (operator_name \<in> fst ` set SEARCH_OPERATORS \<longrightarrow>
      (operator_name, get_operator_info operator_name) \<in> set SEARCH_OPERATORS
      \<and> get_operator_info operator_name
          = snd (last (filter (\<lambda>e. fst e = operator_name) SEARCH_OPERATORS)))"
proof (intro conjI impI)
  assume "operator_name \<notin> fst ` set SEARCH_OPERATORS"
  then have "py_dict_get SEARCH_OPERATORS operator_name = None"
    by (rule py_dict_get_absent)
  then show "get_operator_info operator_name
        = \<lparr>description = ''Unknown operator'', type = ''keyword'',
           placeholder = ''search term'', examples = []\<rparr>"
    by (simp add: get_operator_info_def)
next
  assume "operator_name \<in> fst ` set SEARCH_OPERATORS"
  from py_dict_get_present [OF this] obtain v
    where "py_dict_get SEARCH_OPERATORS operator_name = Some v"
      and "(operator_name, v) \<in> set SEARCH_OPERATORS"
      and "v = snd (last (filter (\<lambda>e. fst e = operator_name) SEARCH_OPERATORS))"
    by blast
  then show "(operator_name, get_operator_info operator_name) \<in> set SEARCH_OPERATORS"
    and "get_operator_info operator_name
          = snd (last (filter (\<lambda>e. fst e = operator_name) SEARCH_OPERATORS))"
    by (simp_all add: get_operator_info_def)
qed

theorem unknown_operator_gets_fallback_witness:
  "''numrange:'' \<notin> fst ` set SEARCH_OPERATORS
   \<and> get_operator_info ''numrange:''
       = \<lparr>description = ''Unknown operator'', type = ''keyword'',
          placeholder = ''search term'', examples = []\<rparr>
   \<and> ''allintitle:'' \<in> fst ` set SEARCH_OPERATORS
   \<and> (''allintitle:'', get_operator_info ''allintitle:'') \<in> set SEARCH_OPERATORS
   \<and> get_operator_info ''allintitle:''
       = snd (last (filter (\<lambda>e. fst e = ''allintitle:'') SEARCH_OPERATORS))"
proof -
  have a: "''numrange:'' \<notin> fst ` set SEARCH_OPERATORS"
    by code_simp
  have b: "''allintitle:'' \<in> fst ` set SEARCH_OPERATORS"
    by code_simp
  note absent = unknown_operator_gets_fallback [THEN conjunct1, THEN mp, OF a]
  note present = unknown_operator_gets_fallback [THEN conjunct2, THEN mp, OF b]
  show ?thesis
    by (intro conjI) (rule a b absent present [THEN conjunct1] present [THEN conjunct2])+
qed

section \<open>Properties of the history file\<close>

text \<open>
  C6. When the write and the read go through, loading after saving a history of at most
  1000 entries returns that history, and after saving a longer one it returns its last 1000
  entries in their order: the oldest ones are dropped.
\<close>

theorem history_round_trip:
  "(length history \<le> 1000 \<longrightarrow>
      load_search_history Succeeds (save_search_history Succeeds history fs) = JList history)
   \<and> (1000 < length history \<longrightarrow>
      load_search_history Succeeds (save_search_history Succeeds history fs)
        = JList (drop (length history - 1000) history)
      \<and> length (drop (length history - 1000) history) = 1000)"
  by (simp add: load_search_history_def save_search_history_def)

theorem history_round_trip_witness:
  "length [JDict [(''operator'', JStr ''site:''), (''query'', JStr ''example.com'')],
           JDict [(''operator'', JStr ''OR''), (''batch'', JBool True)]] \<le> 1000
   \<and> load_search_history Succeeds
        (save_search_history Succeeds
           [JDict [(''operator'', JStr ''site:''), (''query'', JStr ''example.com'')],
            JDict [(''operator'', JStr ''OR''), (''batch'', JBool True)]]
           (\<lambda>path. Missing))
       = JList [JDict [(''operator'', JStr ''site:''), (''query'', JStr ''example.com'')],
                JDict [(''operator'', JStr ''OR''), (''batch'', JBool True)]]
   \<and> 1000 < length (map JInt [1..1002])
   \<and> load_search_history Succeeds
        (save_search_history Succeeds (map JInt [1..1002]) (\<lambda>path. Corrupt))
       = JList (map JInt [3..1002])"
proof -
  have a: "length [JDict [(''operator'', JStr ''site:''), (''query'', JStr ''example.com'')],
           JDict [(''operator'', JStr ''OR''), (''batch'', JBool True)]] \<le> 1000"
    by simp
  have b: "1000 < length (map JInt [1..1002])"
    by simp
  have c: "drop (length (map JInt [1..1002]) - 1000) (map JInt [1..1002]) = map JInt [3..1002]"
    by code_simp
  note short = history_round_trip [THEN conjunct1, THEN mp, OF a]
  note long = history_round_trip [THEN conjunct2, THEN mp, OF b, THEN conjunct1]
  show ?thesis
    by (intro conjI) (rule a b short long [unfolded c])+
qed

section \<open>Properties of the pattern matcher\<close>

lemma conc_nil: "[] \<in> conc A B \<longleftrightarrow> [] \<in> A \<and> [] \<in> B"
  by (auto simp: conc_def)

lemma conc_cons:
  "c # w \<in> conc A B \<longleftrightarrow>
     (\<exists>u v. w = u @ v \<and> c # u \<in> A \<and> v \<in> B) \<or> ([] \<in> A \<and> c # w \<in> B)"
proof
  assume "c # w \<in> conc A B"
  then obtain x y where xy: "c # w = x @ y" "x \<in> A" "y \<in> B"
    by (auto simp: conc_def)
  show "(\<exists>u v. w = u @ v \<and> c # u \<in> A \<and> v \<in> B) \<or> ([] \<in> A \<and> c # w \<in> B)"
  proof (cases x)
    case Nil
    with xy show ?thesis by simp
  next
    case (Cons d u)
    with xy have "w = u @ y" "c # u \<in> A" by simp_all
    with xy(3) show ?thesis by blast
  qed
next
  assume "(\<exists>u v. w = u @ v \<and> c # u \<in> A \<and> v \<in> B) \<or> ([] \<in> A \<and> c # w \<in> B)"
  then show "c # w \<in> conc A B"
  proof
    assume "\<exists>u v. w = u @ v \<and> c # u \<in> A \<and> v \<in> B"
    then obtain u v where "w = u @ v" "c # u \<in> A" "v \<in> B" by blast
    then have "c # w = (c # u) @ v" by simp
    with \<open>c # u \<in> A\<close> \<open>v \<in> B\<close> show ?thesis
      unfolding conc_def by blast
  next
    assume "[] \<in> A \<and> c # w \<in> B"
    then have "c # w = [] @ (c # w)" "[] \<in> A" "c # w \<in> B" by simp_all
    then show ?thesis unfolding conc_def by blast
  qed
qed

lemma star_cons_split:
  assumes "x \<in> star A" and "x = c # w"
  shows "\<exists>u v. w = u @ v \<and> c # u \<in> A \<and> v \<in> star A"
  using assms
proof (induction arbitrary: w rule: star.induct)
  case star_empty
  then show ?case by simp
next
  case (star_step u v)
  show ?case
  proof (cases u)
    case Nil
    with star_step show ?thesis by simp
  next
    case (Cons d u')
    with star_step.prems have "w = u' @ v" "c # u' = u" by simp_all
    with star_step.hyps show ?thesis by blast
  qed
qed

lemma star_cons:
  "c # w \<in> star A \<longleftrightarrow> (\<exists>u v. w = u @ v \<and> c # u \<in> A \<and> v \<in> star A)"
proof
  assume "c # w \<in> star A"
  then show "\<exists>u v. w = u @ v \<and> c # u \<in> A \<and> v \<in> star A"
    by (rule star_cons_split) (rule refl)
next
  assume "\<exists>u v. w = u @ v \<and> c # u \<in> A \<and> v \<in> star A"
  then obtain u v where "w = u @ v" "c # u \<in> A" "v \<in> star A" by blast
  then show "c # w \<in> star A"
    using star_step [of "c # u" A v] by simp
qed

lemma nullable_iff: "nullable r \<longleftrightarrow> [] \<in> lang r"
  by (induction r) (auto simp: conc_nil intro: star_empty)

lemma conc_shifted:
  assumes "\<And>u. u \<in> D \<longleftrightarrow> c # u \<in> A"
  shows "w \<in> conc D B \<longleftrightarrow> (\<exists>u v. w = u @ v \<and> c # u \<in> A \<and> v \<in> B)"
  unfolding conc_def using assms by blast

lemma lang_deriv: "w \<in> lang (deriv c r) \<longleftrightarrow> c # w \<in> lang r"
proof (induction r arbitrary: w)
  case (Seq r s)
  have "w \<in> conc (lang (deriv c r)) (lang s)
          \<longleftrightarrow> (\<exists>u v. w = u @ v \<and> c # u \<in> lang r \<and> v \<in> lang s)"
    by (rule conc_shifted) (rule Seq.IH(1))
  then show ?case
    by (simp add: conc_cons nullable_iff Seq.IH(2))
next
  case (Star r)
  have "w \<in> conc (lang (deriv c r)) (star (lang r))
          \<longleftrightarrow> (\<exists>u v. w = u @ v \<and> c # u \<in> lang r \<and> v \<in> star (lang r))"
    by (rule conc_shifted) (rule Star.IH)
  then show ?case
    by (simp add: star_cons)
qed auto

lemma re_accepts_iff: "re_accepts r s \<longleftrightarrow> s \<in> lang r"
  unfolding re_accepts_def
  by (induction s arbitrary: r) (simp_all add: nullable_iff lang_deriv)


section \<open>The language of the domain pattern\<close>

lemma in_ranges_alnum_all: "\<forall>c. in_ranges alnum c = is_alnum c"
  by code_simp

lemma in_ranges_alnum_hyphen_all:
  "\<forall>c. in_ranges alnum_hyphen c = (is_alnum c \<or> c = CHR ''-'')"
  by code_simp

lemma in_ranges_alnum [simp]: "in_ranges alnum = is_alnum"
  using in_ranges_alnum_all by (intro ext) blast

lemma in_ranges_alnum_hyphen [simp]:
  "in_ranges alnum_hyphen = (\<lambda>c. is_alnum c \<or> c = CHR ''-'')"
  using in_ranges_alnum_hyphen_all by (intro ext) blast

lemma in_ranges_dot_all: "\<forall>c. in_ranges [(CHR ''.'', CHR ''.'')] c = (c = CHR ''.'')"
  by code_simp

lemma hyphen_not_alnum: "\<not> is_alnum (CHR ''-'')"
  by (simp add: is_alnum_def)

lemma dot_not_alnum: "\<not> is_alnum (CHR ''.'')"
  by (simp add: is_alnum_def)

lemma lang_rep_upto_chars:
  "lang (rep_upto (Chars rs) n) = {w. length w \<le> n \<and> list_all (in_ranges rs) w}"
proof (induction n)
  case 0
  show ?case by auto
next
  case (Suc n)
  show ?case
  proof (rule set_eqI)
    fix w
    show "w \<in> lang (rep_upto (Chars rs) (Suc n))
            \<longleftrightarrow> w \<in> {w. length w \<le> Suc n \<and> list_all (in_ranges rs) w}"
    proof (cases w)
      case Nil
      then show ?thesis by simp
    next
      case (Cons c v)
      have "c # v \<in> conc {[c] |c. in_ranges rs c} (lang (rep_upto (Chars rs) n))
              \<longleftrightarrow> in_ranges rs c \<and> v \<in> lang (rep_upto (Chars rs) n)"
        by (auto simp: conc_cons)
      with Cons Suc show ?thesis by auto
    qed
  qed
qed

lemma lang_label_pattern: "l \<in> lang label_pattern \<longleftrightarrow> is_label l"
proof
  assume "l \<in> lang label_pattern"
  then obtain a t where l: "l = a # t" and a: "is_alnum a"
    and t: "t = [] \<or> (\<exists>w b. t = w @ [b] \<and> length w \<le> 61
                \<and> list_all (\<lambda>c. is_alnum c \<or> c = CHR ''-'') w \<and> is_alnum b)"
    unfolding label_pattern_def
    by (cases l) (auto simp: conc_cons conc_def lang_rep_upto_chars)
  from t show "is_label l"
  proof
    assume "t = []"
    with l a show ?thesis
      using hyphen_not_alnum by (auto simp: is_label_def)
  next
    assume "\<exists>w b. t = w @ [b] \<and> length w \<le> 61
                \<and> list_all (\<lambda>c. is_alnum c \<or> c = CHR ''-'') w \<and> is_alnum b"
    then obtain w b where "t = w @ [b]" "length w \<le> 61"
      "list_all (\<lambda>c. is_alnum c \<or> c = CHR ''-'') w" "is_alnum b"
      by blast
    with l a show ?thesis
      using hyphen_not_alnum by (auto simp: is_label_def)
  qed
next
  assume lab: "is_label l"
  then obtain a t where l: "l = a # t"
    by (cases l) (auto simp: is_label_def)
  with lab have a: "is_alnum a"
    by (auto simp: is_label_def)
  show "l \<in> lang label_pattern"
  proof (cases "t = []")
    case True
    with l a show ?thesis
      by (simp add: label_pattern_def conc_cons)
  next
    case False
    then have t: "t = butlast t @ [last t]" by simp
    from False l have "last l = last t" by simp
    with lab have b: "is_alnum (last t)"
      using False l t by (auto simp: is_label_def list_all_iff)
    from lab l have "length t \<le> 62" and all: "list_all (\<lambda>c. is_alnum c \<or> c = CHR ''-'') t"
      by (auto simp: is_label_def)
    then have len: "length (butlast t) \<le> 61" by simp
    from all have allb: "list_all (\<lambda>c. is_alnum c \<or> c = CHR ''-'') (butlast t)"
      by (auto simp: list_all_iff dest: in_set_butlastD)
    have "butlast t \<in> lang (rep_upto (Chars alnum_hyphen) 61)"
      using len allb by (simp add: lang_rep_upto_chars)
    moreover have "[last t] \<in> lang (Chars alnum)"
      using b by simp
    ultimately have "butlast t @ [last t] \<in> lang (Seq (rep_upto (Chars alnum_hyphen) 61) (Chars alnum))"
      unfolding lang.simps(4) conc_def by blast
    with t have "t \<in> lang (Seq (rep_upto (Chars alnum_hyphen) 61) (Chars alnum))"
      by simp
    then have "t \<in> lang (Opt (Seq (rep_upto (Chars alnum_hyphen) 61) (Chars alnum)))"
      by simp
    moreover have "[a] \<in> lang (Chars alnum)"
      using a by simp
    ultimately have "[a] @ t \<in> lang label_pattern"
      unfolding label_pattern_def lang.simps(4) conc_def by blast
    with l show ?thesis by simp
  qed
qed


lemma str_split_char_no_sep:
  "sep \<notin> set l \<Longrightarrow> str_split_char sep l = [l]"
  by (induction l) auto

lemma str_split_char_append_sep:
  "sep \<notin> set l \<Longrightarrow> str_split_char sep (l @ sep # r) = l # str_split_char sep r"
  by (induction l) auto

lemma str_split_char_cases:
  assumes "str_split_char sep s = p # ps"
  shows "(ps = [] \<and> s = p) \<or> (\<exists>r. s = p @ sep # r \<and> str_split_char sep r = ps)"
  using assms
proof (induction s arbitrary: p ps)
  case Nil
  then show ?case by simp
next
  case (Cons c cs)
  show ?case
  proof (cases "c = sep")
    case True
    with Cons.prems show ?thesis by auto
  next
    case False
    from Cons.prems False obtain q where q: "str_split_char sep cs = q # ps" and p: "p = c # q"
      using str_split_char_nonempty [of sep cs] by (auto split: list.splits)
    from Cons.IH [OF q] p show ?thesis by auto
  qed
qed

lemma label_has_no_dot: "is_label l \<Longrightarrow> CHR ''.'' \<notin> set l"
  using dot_not_alnum by (auto simp: is_label_def list_all_iff)

lemma lang_domain_pattern:
  "lang domain_pattern = conc {l. is_label l} (star dotted_labels)"
proof -
  have "lang (Chars [(CHR ''.'', CHR ''.'')]) = {[CHR ''.'']}"
    using in_ranges_dot_all by auto
  moreover have "lang label_pattern = {l. is_label l}"
    using lang_label_pattern by blast
  ultimately show ?thesis
    by (simp add: domain_pattern_def dotted_labels_def)
qed

lemma labels_then_star:
  assumes "t \<in> star dotted_labels" and "is_label l"
  shows "list_all is_label (str_split_char (CHR ''.'') (l @ t))"
  using assms
proof (induction arbitrary: l rule: star.induct)
  case star_empty
  then show ?case
    by (simp add: str_split_char_no_sep label_has_no_dot)
next
  case (star_step u v)
  from star_step.hyps(1) obtain k where u: "u = CHR ''.'' # k" and k: "is_label k"
    by (auto simp: dotted_labels_def conc_def)
  from star_step.prems have "CHR ''.'' \<notin> set l" by (rule label_has_no_dot)
  then have "str_split_char (CHR ''.'') (l @ u @ v) = l # str_split_char (CHR ''.'') (k @ v)"
    using u by (simp add: str_split_char_append_sep)
  with star_step.IH [OF k] star_step.prems show ?case by simp
qed

lemma star_from_labels:
  assumes "str_split_char (CHR ''.'') s = p # ps" and "list_all is_label (p # ps)"
  shows "\<exists>t \<in> star dotted_labels. s = p @ t"
  using assms
proof (induction ps arbitrary: p s)
  case Nil
  from str_split_char_cases [OF Nil.prems(1)] have "s = p"
    using str_split_char_nonempty [of "CHR ''.''"] by auto
  then show ?case using star_empty [of dotted_labels] by auto
next
  case (Cons q qs)
  from str_split_char_cases [OF Cons.prems(1)] obtain r
    where s: "s = p @ CHR ''.'' # r" and r: "str_split_char (CHR ''.'') r = q # qs"
    by auto
  from Cons.prems(2) have "list_all is_label (q # qs)" and q: "is_label q" by simp_all
  from Cons.IH [OF r this(1)] obtain t where t: "t \<in> star dotted_labels" and rt: "r = q @ t"
    by blast
  from q have "CHR ''.'' # q \<in> dotted_labels"
    by (auto simp: dotted_labels_def conc_def)
  then have "(CHR ''.'' # q) @ t \<in> star dotted_labels"
    using t by (rule star_step)
  with s rt show ?case by auto
qed

lemma domain_pattern_accepts: "re_accepts domain_pattern s \<longleftrightarrow> is_domain_name s"
proof
  assume "re_accepts domain_pattern s"
  then have "s \<in> conc {l. is_label l} (star dotted_labels)"
    by (simp add: re_accepts_iff lang_domain_pattern)
  then obtain l t where "s = l @ t" "is_label l" "t \<in> star dotted_labels"
    by (auto simp: conc_def)
  then show "is_domain_name s"
    unfolding is_domain_name_def by (simp add: labels_then_star)
next
  assume dom: "is_domain_name s"
  obtain p ps where split: "str_split_char (CHR ''.'') s = p # ps"
    using str_split_char_nonempty [of "CHR ''.''" s] by (cases "str_split_char (CHR ''.'') s") auto
  with dom have all: "list_all is_label (p # ps)"
    by (simp add: is_domain_name_def)
  from star_from_labels [OF split all] obtain t where "t \<in> star dotted_labels" "s = p @ t"
    by blast
  moreover from all have "is_label p" by simp
  ultimately have "s \<in> conc {l. is_label l} (star dotted_labels)"
    unfolding conc_def by blast
  then show "re_accepts domain_pattern s"
    by (simp add: re_accepts_iff lang_domain_pattern)
qed

section \<open>Properties of validate_url\<close>

lemma startswith_decompose:
  assumes "str_startswith s p"
  shows "s = p @ drop (length p) s"
proof -
  have "take (length p) s @ drop (length p) s = s"
    by (rule append_take_drop_id)
  with assms show ?thesis
    unfolding str_startswith_def by simp
qed

lemma after_scheme_http:
  assumes "str_startswith url ''http://''"
  shows "after_scheme url = Inr (drop 7 url)"
proof -
  define r where "r = drop 7 url"
  have len: "length ''http://'' = 7"
    by simp
  have "url = ''http://'' @ drop (length ''http://'') url"
    using assms by (rule startswith_decompose)
  then have url: "url = ''http://'' @ r"
    unfolding len r_def .
  have "after_scheme (''http://'' @ r) = Inr r"
    by (simp add: after_scheme_def str_startswith_def)
  then have "after_scheme url = Inr r"
    unfolding url [symmetric] .
  then show ?thesis
    unfolding r_def .
qed

lemma after_scheme_https:
  assumes "str_startswith url ''https://''"
  shows "after_scheme url = Inr (drop 8 url)"
proof -
  define r where "r = drop 8 url"
  have len: "length ''https://'' = 8"
    by simp
  have "url = ''https://'' @ drop (length ''https://'') url"
    using assms by (rule startswith_decompose)
  then have url: "url = ''https://'' @ r"
    unfolding len r_def .
  have "after_scheme (''https://'' @ r) = Inr r"
    by (simp add: after_scheme_def str_startswith_def)
  then have "after_scheme url = Inr r"
    unfolding url [symmetric] .
  then show ?thesis
    unfolding r_def .
qed

lemma after_scheme_is_without_scheme:
  assumes "str_startswith url ''http://'' \<or> str_startswith url ''https://''"
  shows "after_scheme url = Inr (without_scheme url)"
proof (cases "str_startswith url ''http://''")
  case True
  then show ?thesis
    by (simp add: after_scheme_http without_scheme_def)
next
  case False
  with assms have "str_startswith url ''https://''" by blast
  with False show ?thesis
    by (simp add: after_scheme_https without_scheme_def)
qed

lemma before_path_takeWhile:
  "before_path url = Inr (takeWhile (\<lambda>c. c \<noteq> CHR ''/'') url)"
proof -
  have "\<exists>ps. str_split_char sep s = takeWhile (\<lambda>c. c \<noteq> sep) s # ps" for sep s
    by (induction s) auto
  then obtain ps
    where "str_split_char (CHR ''/'') url = takeWhile (\<lambda>c. c \<noteq> CHR ''/'') url # ps"
    by blast
  then show ?thesis by (simp add: before_path_def)
qed

lemma validate_url_host:
  "validate_url url =
     Inr (url \<noteq> [] \<and> re_match_anchored domain_pattern (host_part (str_strip url))
          \<and> str_len (host_part (str_strip url)) \<le> 253)"
proof (cases "url = []")
  case True
  then show ?thesis by (simp add: validate_url_def)
next
  case False
  show ?thesis
  proof (cases "str_startswith (str_strip url) ''http://''
                \<or> str_startswith (str_strip url) ''https://''")
    case True
    from after_scheme_is_without_scheme [OF this] True False show ?thesis
      unfolding validate_url_def host_part_def Let_def
      by (simp add: before_path_takeWhile)
  next
    case False
    then have "without_scheme (str_strip url) = str_strip url"
      by (simp add: without_scheme_def)
    with False \<open>url \<noteq> []\<close> show ?thesis
      unfolding validate_url_def host_part_def Let_def
      by (simp add: before_path_takeWhile)
  qed
qed

lemma blank_is_no_domain: "\<not> is_domain_name []"
  by (simp add: is_domain_name_def is_label_def)


lemma str_endswith_single: "str_endswith s [c] \<longleftrightarrow> s \<noteq> [] \<and> last s = c"
  by (cases s rule: rev_cases) (auto simp: str_endswith_def)

lemma host_part_of_empty: "host_part (str_strip []) = []"
  by (simp add: host_part_def str_strip_nil without_scheme_def str_startswith_def)

text \<open>
  C5, as amended. The empty text is not valid. Any other text is first stripped of leading
  and trailing white space; the host is what is left of it once an \<open>http://\<close> or
  \<open>https://\<close> prefix and everything from the first \<open>/\<close> on are removed. When the host
  does not end with a line feed, the text is valid exactly when the host is one or more
  labels separated by dots, each of 1 to 63 letters, digits and hyphens with no hyphen
  first or last, and the host has at most 253 characters. \<open>example.com\<close> and
  \<open>http://example.com/path\<close> are valid; \<open>not a domain!!\<close> and the empty text are not.
\<close>

theorem valid_url_is_domain_name:
  "(\<not> str_endswith (host_part (str_strip url)) [newline] \<longrightarrow>
      validate_url url
        = Inr (is_domain_name (host_part (str_strip url))
               \<and> str_len (host_part (str_strip url)) \<le> 253))
   \<and> validate_url ''example.com'' = Inr True
   \<and> validate_url ''http://example.com/path'' = Inr True
   \<and> validate_url ''not a domain!!'' = Inr False
   \<and> validate_url [] = Inr False"
proof (intro conjI impI)
  let ?h = "host_part (str_strip url)"
  assume "\<not> str_endswith ?h [newline]"
  then have "re_match_anchored domain_pattern ?h = is_domain_name ?h"
    by (auto simp: re_match_anchored_def str_endswith_single domain_pattern_accepts)
  moreover have "is_domain_name ?h \<Longrightarrow> url \<noteq> []"
    using host_part_of_empty blank_is_no_domain by auto
  ultimately show "validate_url url = Inr (is_domain_name ?h \<and> str_len ?h \<le> 253)"
    unfolding validate_url_host by blast
next
  show "validate_url ''example.com'' = Inr True"
    by code_simp
next
  show "validate_url ''http://example.com/path'' = Inr True"
    by code_simp
next
  show "validate_url ''not a domain!!'' = Inr False"
    by code_simp
next
  show "validate_url [] = Inr False"
    by code_simp
qed

theorem valid_url_is_domain_name_witness:
  "\<not> str_endswith (host_part (str_strip '' https://sub.example-site.org/a/b '')) [newline]
   \<and> validate_url '' https://sub.example-site.org/a/b '' = Inr True
   \<and> \<not> str_endswith (host_part (str_strip (''example.com'' @ [CHR 0xC2, CHR 0xA0]))) [newline]
   \<and> validate_url (''example.com'' @ [CHR 0xC2, CHR 0xA0]) = Inr True
   \<and> \<not> str_endswith (host_part (str_strip ''-bad.example.com'')) [newline]
   \<and> validate_url ''-bad.example.com'' = Inr False"
proof -
  have a: "\<not> str_endswith (host_part (str_strip '' https://sub.example-site.org/a/b '')) [newline]"
    by code_simp
  have b: "(is_domain_name (host_part (str_strip '' https://sub.example-site.org/a/b ''))
            \<and> str_len (host_part (str_strip '' https://sub.example-site.org/a/b '')) \<le> 253) = True"
    by code_simp
  have u: "\<not> str_endswith (host_part (str_strip (''example.com'' @ [CHR 0xC2, CHR 0xA0]))) [newline]"
    by code_simp
  have v: "(is_domain_name (host_part (str_strip (''example.com'' @ [CHR 0xC2, CHR 0xA0])))
            \<and> str_len (host_part (str_strip (''example.com'' @ [CHR 0xC2, CHR 0xA0]))) \<le> 253)
           = True"
    by code_simp
  have c: "\<not> str_endswith (host_part (str_strip ''-bad.example.com'')) [newline]"
    by code_simp
  have d: "(is_domain_name (host_part (str_strip ''-bad.example.com''))
            \<and> str_len (host_part (str_strip ''-bad.example.com'')) \<le> 253) = False"
    by code_simp
  note good = valid_url_is_domain_name [THEN conjunct1, THEN mp, OF a, unfolded b]
  note padded = valid_url_is_domain_name [THEN conjunct1, THEN mp, OF u, unfolded v]
  note bad = valid_url_is_domain_name [THEN conjunct1, THEN mp, OF c, unfolded d]
  show ?thesis
    by (intro conjI) (rule a u c good padded bad)+
qed

text \<open>
  C5 as stated fails. A text with white space before the domain is valid, although what is
  left of it after removing a scheme prefix and a path is not a domain name: the text is
  stripped first. And a domain name followed by a line feed and a path is valid, although
  the host with its line feed is not a domain name: \<open>$\<close> also matches before a final
  line feed.
\<close>

theorem valid_url_counterexample:
  "validate_url '' example.com'' = Inr True
   \<and> \<not> (is_domain_name (host_part '' example.com'')
          \<and> str_len (host_part '' example.com'') \<le> 253)
   \<and> validate_url (''example.com'' @ [CHR 0x0A] @ ''/path'') = Inr True
   \<and> \<not> (is_domain_name (host_part (''example.com'' @ [CHR 0x0A] @ ''/path''))
          \<and> str_len (host_part (''example.com'' @ [CHR 0x0A] @ ''/path'')) \<le> 253)"
  by code_simp

end
